theory Spec2Isabelle
  imports Main "HOL-Library.Multiset"
begin

section \<open>The rule AST consumed by the DOT marshaler\<close>

text \<open>
  Modelled from the spec: the Go package \<open>ast\<close> (the struct declarations of the ten node
  kinds) is imported by \<open>dot.go\<close> but is not part of the examined sources. The fields below
  are those that \<open>dot.go\<close> reads, with the types the data model of the specification gives
  them (in particular the right operand of a scalar comparison is a BitOperation).
  \<open>Pos.Offset\<close> is a Go \<open>int\<close>; it is only ever printed, so it is an \<open>int\<close> here.

  A Go pointer is an \<open>option\<close> (\<open>None\<close> is \<open>nil\<close>). Where the marshaler prints the address
  of the pointee with \<open>%p\<close> (operators, identifiers, literals, arrays), the pointer is a
  \<open>ref\<close>: the address together with the value stored there.
\<close>

datatype 'a ref = Ref (addr: nat) (deref: 'a)

record array =
  Array_Pos :: int
  Array_Strings :: "string list"
  Array_Numbers :: "int list"

record arraycomparison =
  ArrayComparison_Pos :: int
  ArrayComparison_Op :: "string ref option"
  ArrayComparison_Array :: "array ref option"

datatype expression =
  Expression (Expression_Pos: int)
             (Expression_Comparison: "comparison option")
             (Expression_Op: "string ref option")
             (Expression_Next: "expression option")
and comparison =
  Comparison (Comparison_Pos: int)
             (Comparison_BitOperation: "bitoperation option")
             (Comparison_ScalarComparison: "scalarcomparison option")
             (Comparison_ArrayComparison: "arraycomparison option")
and scalarcomparison =
  ScalarComparison (ScalarComparison_Pos: int)
                   (ScalarComparison_Op: "string ref option")
                   (ScalarComparison_Next: "bitoperation option")
and bitoperation =
  BitOperation (BitOperation_Pos: int)
               (BitOperation_Unary: "unary option")
               (BitOperation_Op: "string ref option")
               (BitOperation_Next: "bitoperation option")
and unary =
  Unary (Unary_Pos: int)
        (Unary_Op: "string ref option")
        (Unary_Unary: "unary option")
        (Unary_Primary: "primary option")
and primary =
  Primary (Primary_Pos: int)
          (Primary_Ident: "string ref option")
          (Primary_Number: "int ref option")
          (Primary_String: "string ref option")
          (Primary_SubExpression: "expression option")

record booleanexpression =
  BooleanExpression_Pos :: int
  BooleanExpression_Expression :: "expression option"

record rule =
  Rule_Pos :: int
  Rule_BooleanExpression :: "booleanexpression option"

section \<open>The marshaler's own data\<close>

text \<open>The synthetic display node: \<open>type node struct { id string; label string }\<close>.\<close>

record node =
  id :: string
  label :: string

definition newNode :: "string \<Rightarrow> string \<Rightarrow> node" where
  "newNode i l = \<lparr>id = i, label = l\<rparr>"

text \<open>
  The functions of \<open>dot.go\<close> take an \<open>interface{}\<close>. A value of that type is a typed pointer
  to one of the ten AST structs (possibly a typed \<open>nil\<close>), a pointer to a synthetic node, a
  value of any other dynamic type (only the name of the type matters), or the untyped
  \<open>nil\<close> interface.
\<close>

datatype dyn =
    DRule "rule option"
  | DExpression "expression option"
  | DComparison "comparison option"
  | DScalarComparison "scalarcomparison option"
  | DArrayComparison "arraycomparison option"
  | DArray "array ref option"
  | DBooleanExpression "booleanexpression option"
  | DBitOperation "bitoperation option"
  | DUnary "unary option"
  | DPrimary "primary option"
  | DNode node
  | DOther string
  | DNil

text \<open>
  What a call can end with besides its result: an error value returned to the caller, or
  a run-time panic (a \<open>nil\<close> pointer is dereferenced), which no function of the file recovers.
\<close>

datatype error = WriteFailure string | UnsupportedNodeKind string | EmptyLeafNode

datatype abort = Error error | NilDereference

section \<open>Formatting verbs\<close>

text \<open>
  Digits of a natural number in base \<open>b\<close>, most significant first. The marshaler prints in
  base 10 (\<open>%d\<close>, \<open>strconv.Itoa\<close>) and base 16 (\<open>%p\<close>) only.
\<close>

definition digit_char :: "nat \<Rightarrow> char" where
  "digit_char d = ''0123456789abcdef'' ! d"

function digits :: "nat \<Rightarrow> nat \<Rightarrow> string" where
  "digits b n = (if 2 \<le> b \<and> b \<le> n then digits b (n div b) @ [digit_char (n mod b)]
                 else [digit_char n])"
  by pat_completeness auto
termination
  by (relation "measure (\<lambda>(b, n). n)") auto

declare digits.simps [simp del]

text \<open>\<open>%d\<close> and \<open>strconv.Itoa\<close>: signed decimal.\<close>

definition fmt_d :: "int \<Rightarrow> string" where
  "fmt_d i = (if i < 0 then CHR ''-'' # digits 10 (nat (- i)) else digits 10 (nat i))"

text \<open>\<open>%p\<close>: the address in lower-case hexadecimal after \<open>0x\<close>.\<close>

definition fmt_p :: "nat \<Rightarrow> string" where
  "fmt_p a = ''0x'' @ digits 16 a"

text \<open>\<open>strings.Join\<close>.\<close>

fun join :: "string list \<Rightarrow> string \<Rightarrow> string" where
  "join [] sep = []"
| "join [x] sep = x"
| "join (x # y # ys) sep = x @ sep @ join (y # ys) sep"

text \<open>\<open>strings.SplitN(s, ".", 2)\<close>: cut at the first dot, if there is one.\<close>

definition splitN2 :: "string \<Rightarrow> string list" where
  "splitN2 s = (if CHR ''.'' \<in> set s
                then [takeWhile (\<lambda>c. c \<noteq> CHR ''.'') s, tl (dropWhile (\<lambda>c. c \<noteq> CHR ''.'') s)]
                else [s])"

text \<open>The two-character escape \<open>\n\<close> that the label formats contain (a backslash, then \<open>n\<close>).\<close>

definition esc_n :: string where
  "esc_n = [CHR 0x5C, CHR ''n'']"

section \<open>Identifiers and labels\<close>

text \<open>Reading \<open>n.Pos.Offset\<close> through a pointer panics when the pointer is \<open>nil\<close>.\<close>

definition at_offset :: "string \<Rightarrow> ('a \<Rightarrow> int) \<Rightarrow> 'a option \<Rightarrow> abort + string" where
  "at_offset name pos p =
     (case p of None \<Rightarrow> Inl NilDereference | Some n \<Rightarrow> Inr (name @ fmt_d (pos n)))"

fun getID :: "dyn \<Rightarrow> abort + string" where
  "getID (DRule n) = at_offset ''Rule'' Rule_Pos n"
| "getID (DExpression n) = at_offset ''Expression'' Expression_Pos n"
| "getID (DComparison n) = at_offset ''Comparison'' Comparison_Pos n"
| "getID (DScalarComparison n) = at_offset ''ScalarComparison'' ScalarComparison_Pos n"
| "getID (DArrayComparison n) = at_offset ''ArrayComparison'' ArrayComparison_Pos n"
| "getID (DArray n) = at_offset ''Array'' (\<lambda>r. Array_Pos (deref r)) n"
| "getID (DBooleanExpression n) = at_offset ''BooleanExpression'' BooleanExpression_Pos n"
| "getID (DBitOperation n) = at_offset ''BitOperation'' BitOperation_Pos n"
| "getID (DUnary n) = at_offset ''Unary'' Unary_Pos n"
| "getID (DPrimary n) = at_offset ''Primary'' Primary_Pos n"
| "getID (DNode n) = Inr (id n)"
| "getID (DOther t) = Inl (Error (UnsupportedNodeKind t))"
| "getID DNil = Inl (Error (UnsupportedNodeKind ''%!s(<nil>)''))"

text \<open>\<open>reflect.TypeOf(n).String()\<close>; there is no type to ask for the untyped \<open>nil\<close>.\<close>

fun type_string :: "dyn \<Rightarrow> abort + string" where
  "type_string (DRule n) = Inr ''*ast.Rule''"
| "type_string (DExpression n) = Inr ''*ast.Expression''"
| "type_string (DComparison n) = Inr ''*ast.Comparison''"
| "type_string (DScalarComparison n) = Inr ''*ast.ScalarComparison''"
| "type_string (DArrayComparison n) = Inr ''*ast.ArrayComparison''"
| "type_string (DArray n) = Inr ''*ast.Array''"
| "type_string (DBooleanExpression n) = Inr ''*ast.BooleanExpression''"
| "type_string (DBitOperation n) = Inr ''*ast.BitOperation''"
| "type_string (DUnary n) = Inr ''*ast.Unary''"
| "type_string (DPrimary n) = Inr ''*ast.Primary''"
| "type_string (DNode n) = Inr ''*dot.node''"
| "type_string (DOther t) = Inr t"
| "type_string DNil = Inl NilDereference"

fun getLabel :: "dyn \<Rightarrow> abort + string" where
  "getLabel (DNode n) = Inr (label n)"
| "getLabel n = (case type_string n of Inl a \<Rightarrow> Inl a | Inr t \<Rightarrow> Inr (last (splitN2 t)))"

section \<open>Child enumeration\<close>

text \<open>
  \<open>newNode(fmt.Sprintf("Op%p", n.Op), fmt.Sprintf("Op\\n%s", *n.Op))\<close>, and the same with
  the other prefixes: the address of the pointee names the node, the pointee is shown.
\<close>

definition ptrNode :: "string \<Rightarrow> ('a \<Rightarrow> string) \<Rightarrow> 'a ref \<Rightarrow> dyn" where
  "ptrNode kind shown r = DNode (newNode (kind @ fmt_p (addr r)) (kind @ esc_n @ shown (deref r)))"

text \<open>The same where the source does not test the pointer first: \<open>*n.Op\<close> panics on \<open>nil\<close>.\<close>

definition derefNode :: "string \<Rightarrow> ('a \<Rightarrow> string) \<Rightarrow> 'a ref option \<Rightarrow> abort + dyn" where
  "derefNode kind shown p =
     (case p of None \<Rightarrow> Inl NilDereference | Some r \<Rightarrow> Inr (ptrNode kind shown r))"

text \<open>\<open>if p != nil { children = append(children, ...) }\<close>.\<close>

definition opt_child :: "('a \<Rightarrow> dyn) \<Rightarrow> 'a option \<Rightarrow> dyn list" where
  "opt_child f p = (case p of None \<Rightarrow> [] | Some x \<Rightarrow> [f x])"

text \<open>The loop over \<open>n.Numbers\<close>, with its index \<open>i\<close> and the string \<open>s\<close> built so far.\<close>

fun numbers_loop :: "nat \<Rightarrow> string \<Rightarrow> int list \<Rightarrow> string" where
  "numbers_loop i s [] = s"
| "numbers_loop i s (n # ns) =
     numbers_loop (Suc i) (if i \<noteq> 0 then s @ '', '' @ fmt_d n else s @ fmt_d n) ns"

fun getChildren :: "dyn \<Rightarrow> abort + dyn list" where
  "getChildren (DRule None) = Inl NilDereference"
| "getChildren (DRule (Some n)) = Inr [DBooleanExpression (Rule_BooleanExpression n)]"
| "getChildren (DExpression None) = Inl NilDereference"
| "getChildren (DExpression (Some n)) =
     Inr ([DComparison (Expression_Comparison n)]
          @ opt_child (ptrNode ''Op'' (\<lambda>s. s)) (Expression_Op n)
          @ opt_child (\<lambda>e. DExpression (Some e)) (Expression_Next n))"
| "getChildren (DBooleanExpression None) = Inl NilDereference"
| "getChildren (DBooleanExpression (Some n)) = Inr [DExpression (BooleanExpression_Expression n)]"
| "getChildren (DComparison None) = Inl NilDereference"
| "getChildren (DComparison (Some n)) =
     Inr ([DBitOperation (Comparison_BitOperation n)]
          @ opt_child (\<lambda>a. DArrayComparison (Some a)) (Comparison_ArrayComparison n)
          @ opt_child (\<lambda>s. DScalarComparison (Some s)) (Comparison_ScalarComparison n))"
| "getChildren (DArrayComparison None) = Inl NilDereference"
| "getChildren (DArrayComparison (Some n)) =
     (case derefNode ''Op'' (\<lambda>s. s) (ArrayComparison_Op n) of
        Inl a \<Rightarrow> Inl a
      | Inr opnode \<Rightarrow> Inr [opnode, DArray (ArrayComparison_Array n)])"
| "getChildren (DScalarComparison None) = Inl NilDereference"
| "getChildren (DScalarComparison (Some n)) =
     (case derefNode ''Op'' (\<lambda>s. s) (ScalarComparison_Op n) of
        Inl a \<Rightarrow> Inl a
      | Inr opnode \<Rightarrow> Inr [opnode, DBitOperation (ScalarComparison_Next n)])"
| "getChildren (DArray None) = Inl NilDereference"
| "getChildren (DArray (Some n)) =
     (if length (Array_Strings (deref n)) > 0
      then Inr [DNode (newNode (''Array'' @ fmt_p (addr n)) (join (Array_Strings (deref n)) '','' ))]
      else Inr [DNode (newNode (''Array'' @ fmt_p (addr n))
                               (numbers_loop 0 [] (Array_Numbers (deref n))))])"
| "getChildren (DBitOperation None) = Inl NilDereference"
| "getChildren (DBitOperation (Some n)) =
     Inr ([DUnary (BitOperation_Unary n)]
          @ opt_child (ptrNode ''Op'' (\<lambda>s. s)) (BitOperation_Op n)
          @ opt_child (\<lambda>b. DBitOperation (Some b)) (BitOperation_Next n))"
| "getChildren (DUnary None) = Inl NilDereference"
| "getChildren (DUnary (Some n)) =
     Inr (opt_child (ptrNode ''Op'' (\<lambda>s. s)) (Unary_Op n)
          @ opt_child (\<lambda>u. DUnary (Some u)) (Unary_Unary n)
          @ opt_child (\<lambda>p. DPrimary (Some p)) (Unary_Primary n))"
| "getChildren (DPrimary None) = Inl NilDereference"
| "getChildren (DPrimary (Some n)) =
     (case Primary_Ident n of
        Some r \<Rightarrow> Inr [ptrNode ''Ident'' (\<lambda>s. s) r]
      | None \<Rightarrow>
     (case Primary_Number n of
        Some r \<Rightarrow> Inr [ptrNode ''Number'' fmt_d r]
      | None \<Rightarrow>
     (case Primary_String n of
        Some r \<Rightarrow> Inr [ptrNode ''String'' (\<lambda>s. s) r]
      | None \<Rightarrow>
     (case Primary_SubExpression n of
        Some e \<Rightarrow> Inr [DExpression (Some e)]
      | None \<Rightarrow> Inl (Error EmptyLeafNode)))))"
| "getChildren (DNode n) = Inr []"
| "getChildren (DOther t) = Inl (Error (UnsupportedNodeKind t))"
| "getChildren DNil = Inl (Error (UnsupportedNodeKind ''%!s(<nil>)''))"

section \<open>The sink and the traversal\<close>

text \<open>
  The \<open>io.Writer\<close> behind the marshaler is outside the file. It is modelled by what it has
  accepted so far (one entry for each successful \<open>io.WriteString\<close>; the bytes of the document
  are their concatenation) and by its behaviour: given what was accepted so far and the
  next string, it either accepts or refuses with a message. After a refused write the
  record of accepted writes is unchanged.
\<close>

record sink =
  written :: "string list"
  refuse :: "string list \<Rightarrow> string \<Rightarrow> string option"

record Marshaler =
  w :: sink

definition NewMarshaler :: "sink \<Rightarrow> Marshaler" where
  "NewMarshaler k = \<lparr>w = k\<rparr>"

definition writeString :: "Marshaler \<Rightarrow> string \<Rightarrow> Marshaler \<times> (abort + unit)" where
  "writeString d s =
     (case refuse (w d) (written (w d)) s of
        Some msg \<Rightarrow> (d, Inl (Error (WriteFailure msg)))
      | None \<Rightarrow> (d\<lparr>w := (w d)\<lparr>written := written (w d) @ [s]\<rparr>\<rparr>, Inr ()))"

definition writeEdge :: "Marshaler \<Rightarrow> dyn \<Rightarrow> dyn \<Rightarrow> Marshaler \<times> (abort + unit)" where
  "writeEdge d parent child =
     (case getID parent of
        Inl a \<Rightarrow> (d, Inl a)
      | Inr parentID \<Rightarrow>
     (case getID child of
        Inl a \<Rightarrow> (d, Inl a)
      | Inr childID \<Rightarrow> writeString d (parentID @ '' -> '' @ childID @ ''\<newline>'')))"

text \<open>
  Every child that \<open>getChildren\<close> returns is a proper part of the node, so the recursion
  of \<open>writeNode\<close> ends; \<open>weight\<close> is the measure of that.
\<close>

fun weight_opt :: "('a \<Rightarrow> nat) \<Rightarrow> 'a option \<Rightarrow> nat" where
  "weight_opt f None = 1"
| "weight_opt f (Some x) = f x"

fun weight_expression :: "expression \<Rightarrow> nat"
and weight_comparison :: "comparison \<Rightarrow> nat"
and weight_scalarcomparison :: "scalarcomparison \<Rightarrow> nat"
and weight_bitoperation :: "bitoperation \<Rightarrow> nat"
and weight_unary :: "unary \<Rightarrow> nat"
and weight_primary :: "primary \<Rightarrow> nat" where
  "weight_expression (Expression p c op nx) =
     2 + (case c of None \<Rightarrow> 1 | Some x \<Rightarrow> weight_comparison x)
       + (case nx of None \<Rightarrow> 1 | Some x \<Rightarrow> weight_expression x)"
| "weight_comparison (Comparison p b s a) =
     5 + (case b of None \<Rightarrow> 1 | Some x \<Rightarrow> weight_bitoperation x)
       + (case s of None \<Rightarrow> 1 | Some x \<Rightarrow> weight_scalarcomparison x)"
| "weight_scalarcomparison (ScalarComparison p op nx) =
     2 + (case nx of None \<Rightarrow> 1 | Some x \<Rightarrow> weight_bitoperation x)"
| "weight_bitoperation (BitOperation p u op nx) =
     2 + (case u of None \<Rightarrow> 1 | Some x \<Rightarrow> weight_unary x)
       + (case nx of None \<Rightarrow> 1 | Some x \<Rightarrow> weight_bitoperation x)"
| "weight_unary (Unary p op u pr) =
     2 + (case u of None \<Rightarrow> 1 | Some x \<Rightarrow> weight_unary x)
       + (case pr of None \<Rightarrow> 1 | Some x \<Rightarrow> weight_primary x)"
| "weight_primary (Primary p i n s e) =
     2 + (case e of None \<Rightarrow> 1 | Some x \<Rightarrow> weight_expression x)"

fun weight :: "dyn \<Rightarrow> nat" where
  "weight (DRule (Some r)) =
     3 + (case Rule_BooleanExpression r of None \<Rightarrow> 1
          | Some b \<Rightarrow> weight_opt weight_expression (BooleanExpression_Expression b))"
| "weight (DBooleanExpression (Some b)) =
     2 + weight_opt weight_expression (BooleanExpression_Expression b)"
| "weight (DExpression (Some e)) = weight_expression e"
| "weight (DComparison (Some c)) = weight_comparison c"
| "weight (DScalarComparison (Some s)) = weight_scalarcomparison s"
| "weight (DArrayComparison (Some a)) = 4"
| "weight (DArray (Some a)) = 2"
| "weight (DBitOperation (Some b)) = weight_bitoperation b"
| "weight (DUnary (Some u)) = weight_unary u"
| "weight (DPrimary (Some p)) = weight_primary p"
| "weight n = 1"

lemma weight_opt_case: "(case x of None \<Rightarrow> 1 | Some y \<Rightarrow> f y) = weight_opt f x"
  by (cases x) simp_all

lemma weight_sel:
  "weight_expression e = 2 + weight_opt weight_comparison (Expression_Comparison e)
                           + weight_opt weight_expression (Expression_Next e)"
  "weight_comparison c = 5 + weight_opt weight_bitoperation (Comparison_BitOperation c)
                           + weight_opt weight_scalarcomparison (Comparison_ScalarComparison c)"
  "weight_scalarcomparison s = 2 + weight_opt weight_bitoperation (ScalarComparison_Next s)"
  "weight_bitoperation b = 2 + weight_opt weight_unary (BitOperation_Unary b)
                             + weight_opt weight_bitoperation (BitOperation_Next b)"
  "weight_unary u = 2 + weight_opt weight_unary (Unary_Unary u)
                      + weight_opt weight_primary (Unary_Primary u)"
  "weight_primary p = 2 + weight_opt weight_expression (Primary_SubExpression p)"
  by (cases e; cases c; cases s; cases b; cases u; cases p; simp add: weight_opt_case)+

lemma weight_D:
  "weight (DExpression x) = weight_opt weight_expression x"
  "weight (DComparison c) = weight_opt weight_comparison c"
  "weight (DScalarComparison s) = weight_opt weight_scalarcomparison s"
  "weight (DBitOperation b) = weight_opt weight_bitoperation b"
  "weight (DUnary u) = weight_opt weight_unary u"
  "weight (DPrimary p) = weight_opt weight_primary p"
  by (cases x; cases c; cases s; cases b; cases u; cases p; simp)+

lemma weight_pos: "0 < weight n"
  by (cases n rule: weight.cases) (simp_all add: weight_sel)

lemma weight_DArray: "weight (DArray a) \<le> 2"
  by (cases a) simp_all

lemma getChildren_weight:
  "getChildren n = Inr cs \<Longrightarrow> sum_list (map weight cs) < weight n"
  using weight_DArray [of "ArrayComparison_Array (the (case n of DArrayComparison x \<Rightarrow> x))"]
  by (cases n rule: getChildren.cases)
     (auto simp: opt_child_def derefNode_def ptrNode_def weight_D weight_sel
           split: option.splits sum.splits if_splits)

text \<open>
  \<open>writeNode\<close> and its loop over the children. Each call returns the marshaler (whose sink
  may have grown) and either the abort that stopped it or success.
\<close>

function writeNode :: "Marshaler \<Rightarrow> dyn \<Rightarrow> Marshaler \<times> (abort + unit)"
  and writeLoop :: "Marshaler \<Rightarrow> dyn \<Rightarrow> dyn list \<Rightarrow> Marshaler \<times> (abort + unit)" where
  "writeNode d n =
     (case getID n of
        Inl a \<Rightarrow> (d, Inl a)
      | Inr i \<Rightarrow>
     (case getLabel n of
        Inl a \<Rightarrow> (d, Inl a)
      | Inr l \<Rightarrow>
     (case writeString d (i @ ''[label=\"'' @ l @ ''\"]\<newline>'') of
        (d1, Inl a) \<Rightarrow> (d1, Inl a)
      | (d1, Inr _) \<Rightarrow>
     (case getChildren n of
        Inl a \<Rightarrow> (d1, Inl a)
      | Inr children \<Rightarrow> writeLoop d1 n children))))"
| "writeLoop d n [] = (d, Inr ())"
| "writeLoop d n (child # rest) =
     (case writeEdge d n child of
        (d1, Inl a) \<Rightarrow> (d1, Inl a)
      | (d1, Inr _) \<Rightarrow>
     (case writeNode d1 child of
        (d2, Inl a) \<Rightarrow> (d2, Inl a)
      | (d2, Inr _) \<Rightarrow> writeLoop d2 n rest))"
  by pat_completeness auto
termination
  by (relation "measure (\<lambda>x. case x of Inl (d, n) \<Rightarrow> 2 * weight n
                                      | Inr (d, n, cs) \<Rightarrow> 2 * sum_list (map weight cs) + 1)")
     (auto dest: getChildren_weight simp: weight_pos)

definition MarshalRule :: "Marshaler \<Rightarrow> rule option \<Rightarrow> Marshaler \<times> (abort + unit)" where
  "MarshalRule d r =
     (case writeString d ''digraph {\<newline>'' of
        (d1, Inl a) \<Rightarrow> (d1, Inl a)
      | (d1, Inr _) \<Rightarrow>
     (case r of
        None \<Rightarrow> (d1, Inl NilDereference)
      | Some rl \<Rightarrow>
     (case writeNode d1 (DBooleanExpression (Rule_BooleanExpression rl)) of
        (d2, Inl a) \<Rightarrow> (d2, Inl a)
      | (d2, Inr _) \<Rightarrow> writeString d2 ''}\<newline>'')))"

declare writeNode.simps [simp del]

section \<open>Evaluating the formatting verbs\<close>

lemma digits_small: "n < b \<Longrightarrow> digits b n = [digit_char n]"
  by (simp add: digits.simps)

lemma digits_big:
  "2 \<le> b \<Longrightarrow> b \<le> n \<Longrightarrow> digits b n = digits b (n div b) @ [digit_char (n mod b)]"
  by (subst digits.simps) simp

lemma digit_char_simps:
  "digit_char 0 = CHR ''0''" "digit_char 1 = CHR ''1''" "digit_char 2 = CHR ''2''"
  "digit_char 3 = CHR ''3''" "digit_char 4 = CHR ''4''" "digit_char 5 = CHR ''5''"
  "digit_char 6 = CHR ''6''" "digit_char 7 = CHR ''7''" "digit_char 8 = CHR ''8''"
  "digit_char 9 = CHR ''9''" "digit_char 10 = CHR ''a''" "digit_char 11 = CHR ''b''"
  "digit_char 12 = CHR ''c''" "digit_char 13 = CHR ''d''" "digit_char 14 = CHR ''e''"
  "digit_char 15 = CHR ''f''" "digit_char (Suc 0) = CHR ''1''"
  by (simp_all add: digit_char_def)

lemmas fmt_eval = fmt_p_def fmt_d_def digits_small digits_big digit_char_simps

section \<open>Reading a document back\<close>

text \<open>
  The out_of format has two kinds of lines besides the header and the footer: a node
  declaration \<open><id>[label="<label>"]\<close> and an edge \<open><parentId> -> <childId>\<close>. A line is
  read as a declaration when it has that shape, its identifier being what precedes the
  first bracket; any other line with an arrow is read as an edge.
\<close>

definition parse_decl :: "string \<Rightarrow> (string \<times> string) option" where
  "parse_decl l =
     (let i = takeWhile (\<lambda>c. c \<noteq> CHR ''['') l;
          r = dropWhile (\<lambda>c. c \<noteq> CHR ''['') l
      in if 11 \<le> length r \<and> take 8 r = ''[label=\"'' \<and> drop (length r - 3) r = ''\"]\<newline>''
         then Some (i, take (length r - 11) (drop 8 r)) else None)"

definition parse_edge :: "string \<Rightarrow> (string \<times> string) option" where
  "parse_edge l =
     (let p = takeWhile (\<lambda>c. c \<noteq> CHR '' '') l;
          r = dropWhile (\<lambda>c. c \<noteq> CHR '' '') l
      in if parse_decl l = None \<and> 5 \<le> length r \<and> take 4 r = '' -> '' \<and> last r = CHR ''\<newline>''
         then Some (p, butlast (drop 4 r)) else None)"

definition declared :: "string list \<Rightarrow> (string \<times> string) list" where
  "declared ls = List.map_filter parse_decl ls"

definition edges :: "string list \<Rightarrow> (string \<times> string) list" where
  "edges ls = List.map_filter parse_edge ls"

section \<open>Sinks that accept every write\<close>

definition accepting :: "Marshaler \<Rightarrow> bool" where
  "accepting d = (refuse (w d) = (\<lambda>h s. None))"

definition fresh :: Marshaler where
  "fresh = NewMarshaler \<lparr>written = [], refuse = (\<lambda>h s. None)\<rparr>"

definition out_of :: "Marshaler \<times> (abort + unit) \<Rightarrow> string list" where
  "out_of run = written (w (fst run))"

definition node_line :: "string \<Rightarrow> string \<Rightarrow> string" where
  "node_line i l = i @ ''[label=\"'' @ l @ ''\"]\<newline>''"

definition edge_line :: "string \<Rightarrow> string \<Rightarrow> string" where
  "edge_line p c = p @ '' -> '' @ c @ ''\<newline>''"

section \<open>What an accepting sink receives\<close>

definition emit :: "Marshaler \<Rightarrow> string list \<Rightarrow> Marshaler" where
  "emit d ls = d\<lparr>w := (w d)\<lparr>written := written (w d) @ ls\<rparr>\<rparr>"

lemma emit_simps [simp]:
  "emit d [] = d"
  "emit (emit d xs) ys = emit d (xs @ ys)"
  "accepting (emit d xs) = accepting d"
  "written (w (emit d xs)) = written (w d) @ xs"
  by (simp_all add: emit_def accepting_def)

lemma writeString_accepting:
  "accepting d \<Longrightarrow> writeString d s = (emit d [s], Inr ())"
  by (simp add: writeString_def accepting_def emit_def)

lemma writeEdge_accepting:
  "accepting d \<Longrightarrow> getID p = Inr pid \<Longrightarrow> getID c = Inr cid
   \<Longrightarrow> writeEdge d p c = (emit d [edge_line pid cid], Inr ())"
  by (simp add: writeEdge_def writeString_accepting edge_line_def)

lemma writeEdge_child_fails:
  "getID p = Inr pid \<Longrightarrow> getID c = Inl a \<Longrightarrow> writeEdge d p c = (d, Inl a)"
  by (simp add: writeEdge_def)

lemma getChildren_member_weight:
  "getChildren n = Inr cs \<Longrightarrow> c \<in> set cs \<Longrightarrow> weight c < weight n"
  using getChildren_weight [of n cs] member_le_sum_list [of "weight c" "map weight cs"]
  by auto

text \<open>
  The lines that a run of \<open>writeNode\<close> appends to an accepting sink, and how the run ends.
\<close>

function doc :: "dyn \<Rightarrow> string list \<times> (abort + unit)"
  and doc_loop :: "dyn \<Rightarrow> dyn list \<Rightarrow> string list \<times> (abort + unit)" where
  "doc n =
     (case getID n of
        Inl a \<Rightarrow> ([], Inl a)
      | Inr i \<Rightarrow>
     (case getLabel n of
        Inl a \<Rightarrow> ([], Inl a)
      | Inr l \<Rightarrow>
     (case getChildren n of
        Inl a \<Rightarrow> ([node_line i l], Inl a)
      | Inr cs \<Rightarrow> (node_line i l # fst (doc_loop n cs), snd (doc_loop n cs)))))"
| "doc_loop n [] = ([], Inr ())"
| "doc_loop n (c # cs) =
     (case getID n of
        Inl a \<Rightarrow> ([], Inl a)
      | Inr p \<Rightarrow>
     (case getID c of
        Inl a \<Rightarrow> ([], Inl a)
      | Inr ci \<Rightarrow>
     (case snd (doc c) of
        Inl a \<Rightarrow> (edge_line p ci # fst (doc c), Inl a)
      | Inr u \<Rightarrow> (edge_line p ci # fst (doc c) @ fst (doc_loop n cs), snd (doc_loop n cs)))))"
  by pat_completeness auto
termination
  by (relation "measure (\<lambda>x. case x of Inl n \<Rightarrow> 2 * weight n
                                      | Inr (n, cs) \<Rightarrow> 2 * sum_list (map weight cs) + 1)")
     (auto dest: getChildren_weight simp: weight_pos)

declare doc.simps [simp del]

function subnodes :: "dyn \<Rightarrow> dyn list" where
  "subnodes n = n # (case getChildren n of Inl a \<Rightarrow> [] | Inr cs \<Rightarrow> concat (map subnodes cs))"
  by pat_completeness auto
termination
  by (relation "measure weight") (auto dest: getChildren_member_weight)

declare subnodes.simps [simp del]

lemma run_doc:
  "accepting d \<Longrightarrow> writeNode d n = (emit d (fst (doc n)), snd (doc n))"
  "accepting d \<Longrightarrow> writeLoop d n cs = (emit d (fst (doc_loop n cs)), snd (doc_loop n cs))"
proof (induction d n and d n cs rule: writeNode_writeLoop.induct)
  case (1 d n)
  show ?case
  proof (cases "getID n")
    case (Inl a)
    then show ?thesis by (simp add: writeNode.simps doc.simps)
  next
    case i: (Inr i)
    show ?thesis
    proof (cases "getLabel n")
      case (Inl a)
      then show ?thesis using i by (simp add: writeNode.simps doc.simps)
    next
      case l: (Inr l)
      have ws: "writeString d (i @ ''[label=\"'' @ l @ ''\"]\<newline>'') = (emit d [node_line i l], Inr ())"
        using "1.prems" by (simp add: writeString_accepting node_line_def)
      show ?thesis
      proof (cases "getChildren n")
        case (Inl a)
        then show ?thesis using i l ws by (simp add: writeNode.simps doc.simps)
      next
        case (Inr cs)
        have "writeLoop (emit d [node_line i l]) n cs
              = (emit (emit d [node_line i l]) (fst (doc_loop n cs)), snd (doc_loop n cs))"
          using "1.IH" [OF i l ws [symmetric] refl Inr] "1.prems" by simp
        then show ?thesis using i l ws Inr by (simp add: writeNode.simps doc.simps)
      qed
    qed
  qed
next
  case (2 d n)
  show ?case by simp
next
  case (3 d n child rest)
  show ?case
  proof (cases "getID n")
    case (Inl a)
    then show ?thesis by (simp add: writeEdge_def)
  next
    case p: (Inr p)
    show ?thesis
    proof (cases "getID child")
      case (Inl a)
      then show ?thesis using p by (simp add: writeEdge_def)
    next
      case c: (Inr ci)
      have we: "writeEdge d n child = (emit d [edge_line p ci], Inr ())"
        using "3.prems" p c by (rule writeEdge_accepting)
      have n1: "writeNode (emit d [edge_line p ci]) child
                = (emit (emit d [edge_line p ci]) (fst (doc child)), snd (doc child))"
        using "3.IH"(1) [OF we [symmetric] refl] "3.prems" by simp
      show ?thesis
      proof (cases "snd (doc child)")
        case (Inl a)
        then show ?thesis using p c we n1 by simp
      next
        case (Inr u)
        have "writeLoop (emit d (edge_line p ci # fst (doc child))) n rest
              = (emit (emit d (edge_line p ci # fst (doc child))) (fst (doc_loop n rest)),
                 snd (doc_loop n rest))"
          using "3.IH"(2) [OF we [symmetric] refl _ Inr] n1 "3.prems" by simp
        then show ?thesis using p c we n1 Inr by simp
      qed
    qed
  qed
qed

section \<open>The rule a == 1\<close>

definition a_eq_1 :: rule where
  "a_eq_1 =
     \<lparr>Rule_Pos = 0,
      Rule_BooleanExpression = Some
       \<lparr>BooleanExpression_Pos = 0,
        BooleanExpression_Expression = Some
         (Expression 0
           (Some (Comparison 0
             (Some (BitOperation 0
               (Some (Unary 0 None None
                 (Some (Primary 0 (Some (Ref 4096 ''a'')) None None None))))
               None None))
             (Some (ScalarComparison 2 (Some (Ref 4112 ''==''))
               (Some (BitOperation 5
                 (Some (Unary 5 None None
                   (Some (Primary 5 None (Some (Ref 4128 1)) None None))))
                 None None))))
             None))
           None None)\<rparr>\<rparr>"

lemmas run_eval = MarshalRule_def writeNode.simps writeEdge_def writeString_def
  at_offset_def opt_child_def ptrNode_def derefNode_def newNode_def esc_n_def splitN2_def
  NewMarshaler_def fresh_def out_of_def


lemma a_eq_1_run:
  "MarshalRule fresh (Some a_eq_1) =
     (NewMarshaler \<lparr>written =
        [''digraph {\<newline>'',
         node_line ''BooleanExpression0'' ''BooleanExpression'',
         edge_line ''BooleanExpression0'' ''Expression0'',
         node_line ''Expression0'' ''Expression'',
         edge_line ''Expression0'' ''Comparison0'',
         node_line ''Comparison0'' ''Comparison'',
         edge_line ''Comparison0'' ''BitOperation0'',
         node_line ''BitOperation0'' ''BitOperation'',
         edge_line ''BitOperation0'' ''Unary0'',
         node_line ''Unary0'' ''Unary'',
         edge_line ''Unary0'' ''Primary0'',
         node_line ''Primary0'' ''Primary'',
         edge_line ''Primary0'' ''Ident0x1000'',
         node_line ''Ident0x1000'' (''Ident'' @ esc_n @ ''a''),
         edge_line ''Comparison0'' ''ScalarComparison2'',
         node_line ''ScalarComparison2'' ''ScalarComparison'',
         edge_line ''ScalarComparison2'' ''Op0x1010'',
         node_line ''Op0x1010'' (''Op'' @ esc_n @ ''==''),
         edge_line ''ScalarComparison2'' ''BitOperation5'',
         node_line ''BitOperation5'' ''BitOperation'',
         edge_line ''BitOperation5'' ''Unary5'',
         node_line ''Unary5'' ''Unary'',
         edge_line ''Unary5'' ''Primary5'',
         node_line ''Primary5'' ''Primary'',
         edge_line ''Primary5'' ''Number0x1020'',
         node_line ''Number0x1020'' (''Number'' @ esc_n @ ''1''),
         ''}\<newline>''],
        refuse = (\<lambda>h s. None)\<rparr>, Inr ())"
  by (simp add: run_eval a_eq_1_def fmt_eval node_line_def edge_line_def)

lemma takeWhile_until: "c \<notin> set xs \<Longrightarrow> takeWhile (\<lambda>x. x \<noteq> c) (xs @ c # ys) = xs"
  by (induction xs) auto

lemma dropWhile_until: "c \<notin> set xs \<Longrightarrow> dropWhile (\<lambda>x. x \<noteq> c) (xs @ c # ys) = c # ys"
  by (induction xs) auto

lemma dropWhile_absent: "c \<notin> set xs \<Longrightarrow> dropWhile (\<lambda>x. x \<noteq> c) xs = []"
  by (induction xs) auto

lemma parse_decl_node_line:
  "CHR ''['' \<notin> set i \<Longrightarrow> parse_decl (node_line i l) = Some (i, l)"
proof -
  assume i: "CHR ''['' \<notin> set i"
  have shape: "node_line i l = i @ CHR ''['' # (''label=\"'' @ l @ ''\"]\<newline>'')"
    by (simp add: node_line_def)
  show ?thesis
    unfolding parse_decl_def shape takeWhile_until [OF i] dropWhile_until [OF i]
    by simp
qed

lemma parse_decl_edge_line:
  "CHR ''['' \<notin> set p \<Longrightarrow> CHR ''['' \<notin> set c \<Longrightarrow> parse_decl (edge_line p c) = None"
proof -
  assume "CHR ''['' \<notin> set p" "CHR ''['' \<notin> set c"
  then have "CHR ''['' \<notin> set (edge_line p c)"
    by (simp add: edge_line_def)
  then show ?thesis
    by (simp add: parse_decl_def dropWhile_absent)
qed

lemma parse_edge_edge_line:
  "CHR ''['' \<notin> set p \<Longrightarrow> CHR ''['' \<notin> set c \<Longrightarrow> CHR '' '' \<notin> set p
   \<Longrightarrow> parse_edge (edge_line p c) = Some (p, c)"
proof -
  assume b: "CHR ''['' \<notin> set p" "CHR ''['' \<notin> set c" and sp: "CHR '' '' \<notin> set p"
  have shape: "edge_line p c = p @ CHR '' '' # (''-> '' @ c @ ''\<newline>'')"
    by (simp add: edge_line_def)
  have "parse_decl (edge_line p c) = None"
    using b by (rule parse_decl_edge_line)
  then show ?thesis
    unfolding parse_edge_def
    by (simp add: shape takeWhile_until [OF sp] dropWhile_until [OF sp] butlast_append)
qed

lemma parse_edge_node_line:
  "CHR ''['' \<notin> set i \<Longrightarrow> parse_edge (node_line i l) = None"
  by (simp add: parse_edge_def parse_decl_node_line)

lemma parse_header_footer:
  "parse_decl ''digraph {\<newline>'' = None" "parse_decl ''}\<newline>'' = None"
  "parse_edge ''digraph {\<newline>'' = None" "parse_edge ''}\<newline>'' = None"
  by (simp_all add: parse_decl_def parse_edge_def)

lemmas parse_eval = declared_def edges_def parse_decl_node_line
  parse_decl_edge_line parse_edge_edge_line parse_edge_node_line parse_header_footer

lemma a_eq_1_declared:
  "declared (out_of (MarshalRule fresh (Some a_eq_1))) =
     [(''BooleanExpression0'', ''BooleanExpression''),
      (''Expression0'', ''Expression''),
      (''Comparison0'', ''Comparison''),
      (''BitOperation0'', ''BitOperation''),
      (''Unary0'', ''Unary''),
      (''Primary0'', ''Primary''),
      (''Ident0x1000'', ''Ident'' @ esc_n @ ''a''),
      (''ScalarComparison2'', ''ScalarComparison''),
      (''Op0x1010'', ''Op'' @ esc_n @ ''==''),
      (''BitOperation5'', ''BitOperation''),
      (''Unary5'', ''Unary''),
      (''Primary5'', ''Primary''),
      (''Number0x1020'', ''Number'' @ esc_n @ ''1'')]"
  by (simp add: a_eq_1_run out_of_def NewMarshaler_def parse_eval)

lemma a_eq_1_edges:
  "edges (out_of (MarshalRule fresh (Some a_eq_1))) =
     [(''BooleanExpression0'', ''Expression0''),
      (''Expression0'', ''Comparison0''),
      (''Comparison0'', ''BitOperation0''),
      (''BitOperation0'', ''Unary0''),
      (''Unary0'', ''Primary0''),
      (''Primary0'', ''Ident0x1000''),
      (''Comparison0'', ''ScalarComparison2''),
      (''ScalarComparison2'', ''Op0x1010''),
      (''ScalarComparison2'', ''BitOperation5''),
      (''BitOperation5'', ''Unary5''),
      (''Unary5'', ''Primary5''),
      (''Primary5'', ''Number0x1020'')]"
  by (simp add: a_eq_1_run out_of_def NewMarshaler_def parse_eval)

text \<open>
  C1 (as the code has it). The marshaler also declares the two \<open>Primary\<close> nodes, which sit
  between each \<open>Unary\<close> and its leaf. For the rule \<open>a == 1\<close> the document therefore has
  13 node declarations and 12 edges: BooleanExpression, Expression, Comparison, the left
  BitOperation, the left Unary, the left Primary, the identifier leaf labelled \<open>Ident\na\<close>,
  ScalarComparison, the operator node labelled \<open>Op\n==\<close>, the right BitOperation, the right
  Unary, the right Primary, and the number leaf labelled \<open>Number\n1\<close>.
\<close>

theorem a_eq_1_document:
  "snd (MarshalRule fresh (Some a_eq_1)) = Inr ()
   \<and> length (declared (out_of (MarshalRule fresh (Some a_eq_1)))) = 13
   \<and> length (edges (out_of (MarshalRule fresh (Some a_eq_1)))) = 12
   \<and> declared (out_of (MarshalRule fresh (Some a_eq_1))) =
     [(''BooleanExpression0'', ''BooleanExpression''),
      (''Expression0'', ''Expression''),
      (''Comparison0'', ''Comparison''),
      (''BitOperation0'', ''BitOperation''),
      (''Unary0'', ''Unary''),
      (''Primary0'', ''Primary''),
      (''Ident0x1000'', ''Ident'' @ esc_n @ ''a''),
      (''ScalarComparison2'', ''ScalarComparison''),
      (''Op0x1010'', ''Op'' @ esc_n @ ''==''),
      (''BitOperation5'', ''BitOperation''),
      (''Unary5'', ''Unary''),
      (''Primary5'', ''Primary''),
      (''Number0x1020'', ''Number'' @ esc_n @ ''1'')]"
  by (simp add: a_eq_1_declared a_eq_1_edges) (simp add: a_eq_1_run)

text \<open>
  C1 as stated fails: the document for \<open>a == 1\<close> has neither exactly 11 node declarations
  nor exactly 10 edges, and it declares a node \<open>Primary0\<close> labelled \<open>Primary\<close>, which is not
  among the eleven nodes that the claim lists.
\<close>

theorem a_eq_1_not_eleven_nodes:
  "length (declared (out_of (MarshalRule fresh (Some a_eq_1)))) \<noteq> 11
   \<and> length (edges (out_of (MarshalRule fresh (Some a_eq_1)))) \<noteq> 10
   \<and> (''Primary0'', ''Primary'') \<in> set (declared (out_of (MarshalRule fresh (Some a_eq_1))))"
  by (simp add: a_eq_1_declared a_eq_1_edges)


section \<open>Values outside the closed set of node kinds\<close>

text \<open>
  C5. A value that is none of the ten AST node kinds and not a synthetic node (a value of
  another dynamic type, or the untyped \<open>nil\<close>) stops the traversal with the
  unsupported-node error: \<open>getID\<close> and \<open>getChildren\<close> both return it; \<open>writeNode\<close> on such a
  value returns it and writes nothing; and when such a value is met as a child, the loop
  over the children returns it at the edge to that child, before any later sibling.
\<close>

theorem unsupported_node_aborts:
  "getID (DOther t) = Inl (Error (UnsupportedNodeKind t))
   \<and> getChildren (DOther t) = Inl (Error (UnsupportedNodeKind t))
   \<and> writeNode d (DOther t) = (d, Inl (Error (UnsupportedNodeKind t)))
   \<and> writeNode d DNil = (d, Inl (Error (UnsupportedNodeKind ''%!s(<nil>)'')))
   \<and> (\<exists>u. snd (writeLoop d (DNode n) (DOther t # rest)) = Inl (Error (UnsupportedNodeKind u)))
   \<and> (\<exists>u. snd (writeLoop d (DNode n) (DNil # rest)) = Inl (Error (UnsupportedNodeKind u)))
   \<and> fst (writeLoop d (DNode n) (DOther t # rest)) = d
   \<and> fst (writeLoop d (DNode n) (DNil # rest)) = d"
  by (simp add: writeNode.simps writeEdge_def)

section \<open>Which node stops a run\<close>

text \<open>
  A node stops the traversal when \<open>getID\<close> or \<open>getChildren\<close> does not return for it; the
  traversal asks for the identifier of a node before it asks for its children.
\<close>

definition fault :: "dyn \<Rightarrow> abort option" where
  "fault n =
     (case getID n of
        Inl a \<Rightarrow> Some a
      | Inr i \<Rightarrow> (case getChildren n of Inl a \<Rightarrow> Some a | Inr cs \<Rightarrow> None))"

fun first_fault :: "dyn list \<Rightarrow> abort option" where
  "first_fault [] = None"
| "first_fault (m # ms) = (case fault m of Some a \<Rightarrow> Some a | None \<Rightarrow> first_fault ms)"

definition ending :: "abort option \<Rightarrow> abort + unit" where
  "ending f = (case f of None \<Rightarrow> Inr () | Some a \<Rightarrow> Inl a)"

lemma first_fault_append:
  "first_fault (xs @ ys) = (case first_fault xs of Some a \<Rightarrow> Some a | None \<Rightarrow> first_fault ys)"
  by (induction xs) (simp_all split: option.splits)

lemma getLabel_defined: "getID n = Inr i \<Longrightarrow> \<exists>l. getLabel n = Inr l"
  by (cases n) simp_all

lemma doc_ending:
  "snd (doc n) = ending (first_fault (subnodes n))"
  "\<exists>p. getID n = Inr p \<Longrightarrow> snd (doc_loop n cs) = ending (first_fault (concat (map subnodes cs)))"
proof (induction n and n cs rule: doc_doc_loop.induct)
  case (1 n)
  show ?case
  proof (cases "getID n")
    case (Inl a)
    then show ?thesis
      by (subst doc.simps, subst subnodes.simps) (simp add: fault_def ending_def)
  next
    case i: (Inr i)
    then obtain l where l: "getLabel n = Inr l"
      using getLabel_defined by blast
    show ?thesis
    proof (cases "getChildren n")
      case (Inl a)
      then show ?thesis using i l
        by (subst doc.simps, subst subnodes.simps) (simp add: fault_def ending_def)
    next
      case (Inr cs)
      have "\<exists>p. getID n = Inr p" using i by blast
      then show ?thesis using i l Inr "1.IH" [OF i l Inr]
        by (subst doc.simps, subst subnodes.simps) (simp add: fault_def)
    qed
  qed
next
  case (2 n)
  show ?case by (simp add: ending_def)
next
  case (3 n c cs)
  from "3.prems" obtain p where p: "getID n = Inr p" by blast
  show ?case
  proof (cases "getID c")
    case (Inl a)
    then have "fault c = Some a" by (simp add: fault_def)
    then show ?thesis using p Inl
      by (subst subnodes.simps) (simp add: ending_def)
  next
    case ci: (Inr ci)
    have c: "snd (doc c) = ending (first_fault (subnodes c))"
      using "3.IH"(1) [OF p ci] .
    show ?thesis
    proof (cases "snd (doc c)")
      case (Inl a)
      then show ?thesis using p ci c
        by (simp add: first_fault_append ending_def split: option.splits)
    next
      case (Inr u)
      have "snd (doc_loop n cs) = ending (first_fault (concat (map subnodes cs)))"
        using "3.IH" p ci Inr "3.prems" by blast
      then show ?thesis using p ci c Inr
        by (simp add: first_fault_append ending_def split: option.splits)
    qed
  qed
qed

section \<open>Well-formed trees\<close>

text \<open>
  What the marshaler needs of each node it visits: the node is of one of the ten AST
  kinds or synthetic, the pointer to it is not \<open>nil\<close> (so every mandatory operand of its
  parent is present), an array or scalar comparison carries its operator, and a Primary
  has at least one of its four alternatives.
\<close>

fun node_ok :: "dyn \<Rightarrow> bool" where
  "node_ok (DRule p) = (p \<noteq> None)"
| "node_ok (DExpression p) = (p \<noteq> None)"
| "node_ok (DComparison p) = (p \<noteq> None)"
| "node_ok (DScalarComparison p) =
     (case p of None \<Rightarrow> False | Some s \<Rightarrow> ScalarComparison_Op s \<noteq> None)"
| "node_ok (DArrayComparison p) =
     (case p of None \<Rightarrow> False | Some a \<Rightarrow> ArrayComparison_Op a \<noteq> None)"
| "node_ok (DArray p) = (p \<noteq> None)"
| "node_ok (DBooleanExpression p) = (p \<noteq> None)"
| "node_ok (DBitOperation p) = (p \<noteq> None)"
| "node_ok (DUnary p) = (p \<noteq> None)"
| "node_ok (DPrimary p) =
     (case p of None \<Rightarrow> False
      | Some x \<Rightarrow> Primary_Ident x \<noteq> None \<or> Primary_Number x \<noteq> None
                  \<or> Primary_String x \<noteq> None \<or> Primary_SubExpression x \<noteq> None)"
| "node_ok (DNode n) = True"
| "node_ok (DOther t) = False"
| "node_ok DNil = False"

definition well_formed :: "dyn \<Rightarrow> bool" where
  "well_formed n = list_all node_ok (subnodes n)"

definition well_formed_rule :: "rule option \<Rightarrow> bool" where
  "well_formed_rule r =
     (case r of None \<Rightarrow> False
      | Some x \<Rightarrow> well_formed (DBooleanExpression (Rule_BooleanExpression x)))"

lemma node_ok_fault: "node_ok n \<longleftrightarrow> fault n = None"
  by (cases n rule: getChildren.cases)
     (auto simp: fault_def at_offset_def derefNode_def split: option.splits sum.splits)

lemma first_fault_None: "first_fault ns = None \<longleftrightarrow> list_all node_ok ns"
  by (induction ns) (auto simp: node_ok_fault split: option.splits)

lemma well_formed_ending: "well_formed n \<Longrightarrow> snd (doc n) = Inr ()"
  using first_fault_None [of "subnodes n"]
  by (simp add: well_formed_def doc_ending ending_def)

lemma MarshalRule_accepting:
  "accepting d \<Longrightarrow> MarshalRule d (Some r) =
     (case snd (doc (DBooleanExpression (Rule_BooleanExpression r))) of
        Inl a \<Rightarrow> (emit d (''digraph {\<newline>'' # fst (doc (DBooleanExpression (Rule_BooleanExpression r)))), Inl a)
      | Inr u \<Rightarrow> (emit d (''digraph {\<newline>'' # fst (doc (DBooleanExpression (Rule_BooleanExpression r)))
                           @ [''}\<newline>'']), Inr ()))"
  by (simp add: MarshalRule_def writeString_accepting run_doc split: sum.splits)

text \<open>
  C3. For every well-formed rule AST (every node that child enumeration reaches is of
  the closed set and not \<open>nil\<close>, every comparison carries its operator, every Primary is
  populated) and a sink that accepts every write, \<open>MarshalRule\<close> returns success, and what
  it appends to the sink begins with the line \<open>digraph {\<close> and ends with the line \<open>}\<close>.
\<close>

theorem well_formed_rule_serializes:
  assumes "accepting d" and "well_formed_rule r"
  shows "snd (MarshalRule d r) = Inr ()
         \<and> (\<exists>body. out_of (MarshalRule d r)
                     = written (w d) @ [''digraph {\<newline>''] @ body @ [''}\<newline>''])"
proof -
  obtain x where r: "r = Some x"
    and wf: "well_formed (DBooleanExpression (Rule_BooleanExpression x))"
    using assms(2) by (auto simp: well_formed_rule_def split: option.splits)
  show ?thesis
    using assms(1) well_formed_ending [OF wf]
    by (simp add: r MarshalRule_accepting out_of_def)
qed


text \<open>The rule \<open>a == 1\<close> on a fresh sink is an instance.\<close>

theorem well_formed_rule_serializes_witness:
  "accepting fresh \<and> well_formed_rule (Some a_eq_1)
   \<and> snd (MarshalRule fresh (Some a_eq_1)) = Inr ()
   \<and> (\<exists>body. out_of (MarshalRule fresh (Some a_eq_1))
               = written (w fresh) @ [''digraph {\<newline>''] @ body @ [''}\<newline>''])"
proof -
  have a: "accepting fresh"
    by (simp add: accepting_def fresh_def NewMarshaler_def)
  have b: "well_formed_rule (Some a_eq_1)"
    by (simp add: well_formed_rule_def well_formed_def a_eq_1_def subnodes.simps
                  opt_child_def derefNode_def ptrNode_def)
  show ?thesis
    using a b well_formed_rule_serializes [OF a b] by blast
qed

section \<open>Determinism\<close>

lemma MarshalRule_nil:
  "accepting d \<Longrightarrow> MarshalRule d None = (emit d [''digraph {\<newline>''], Inl NilDereference)"
  by (simp add: MarshalRule_def writeString_accepting)

text \<open>
  C7. Serializing the same AST into two independent sinks that both accept every write
  ends the same way in both runs and appends the same sequence of strings to both sinks.
\<close>

theorem serialization_deterministic:
  assumes "accepting d1" and "accepting d2"
  shows "snd (MarshalRule d1 r) = snd (MarshalRule d2 r)
         \<and> (\<exists>ls. out_of (MarshalRule d1 r) = written (w d1) @ ls
                 \<and> out_of (MarshalRule d2 r) = written (w d2) @ ls)"
proof (cases r)
  case None
  then show ?thesis
    using assms by (simp add: MarshalRule_nil out_of_def)
next
  case (Some x)
  then show ?thesis
    using assms by (simp add: MarshalRule_accepting out_of_def split: sum.splits)
qed

text \<open>Two sinks with different earlier contents receive the same document for \<open>a == 1\<close>.\<close>

theorem serialization_deterministic_witness:
  "accepting fresh \<and> accepting (emit fresh [''earlier''])
   \<and> snd (MarshalRule fresh (Some a_eq_1)) = snd (MarshalRule (emit fresh [''earlier'']) (Some a_eq_1))
   \<and> (\<exists>ls. out_of (MarshalRule fresh (Some a_eq_1)) = written (w fresh) @ ls
           \<and> out_of (MarshalRule (emit fresh [''earlier'']) (Some a_eq_1))
               = written (w (emit fresh [''earlier''])) @ ls)"
proof -
  have a: "accepting fresh"
    by (simp add: accepting_def fresh_def NewMarshaler_def)
  have b: "accepting (emit fresh [''earlier''])"
    using a by simp
  show ?thesis
    using a b serialization_deterministic [OF a b, of "Some a_eq_1"] by blast
qed

section \<open>Original nodes: identifier and label\<close>

text \<open>The variant-kind name and the source offset of an original AST node.\<close>

fun kind_offset :: "dyn \<Rightarrow> (string \<times> int) option" where
  "kind_offset (DRule (Some n)) = Some (''Rule'', Rule_Pos n)"
| "kind_offset (DExpression (Some n)) = Some (''Expression'', Expression_Pos n)"
| "kind_offset (DComparison (Some n)) = Some (''Comparison'', Comparison_Pos n)"
| "kind_offset (DScalarComparison (Some n)) = Some (''ScalarComparison'', ScalarComparison_Pos n)"
| "kind_offset (DArrayComparison (Some n)) = Some (''ArrayComparison'', ArrayComparison_Pos n)"
| "kind_offset (DArray (Some n)) = Some (''Array'', Array_Pos (deref n))"
| "kind_offset (DBooleanExpression (Some n)) = Some (''BooleanExpression'', BooleanExpression_Pos n)"
| "kind_offset (DBitOperation (Some n)) = Some (''BitOperation'', BitOperation_Pos n)"
| "kind_offset (DUnary (Some n)) = Some (''Unary'', Unary_Pos n)"
| "kind_offset (DPrimary (Some n)) = Some (''Primary'', Primary_Pos n)"
| "kind_offset n = None"

lemma kind_offset_id_label:
  "kind_offset n = Some (k, off) \<Longrightarrow> getID n = Inr (k @ fmt_d off) \<and> getLabel n = Inr k"
  by (cases n rule: kind_offset.cases) (auto simp: at_offset_def splitN2_def)

lemma doc_first_line:
  "getID n = Inr i \<Longrightarrow> getLabel n = Inr l \<Longrightarrow> \<exists>rest. fst (doc n) = node_line i l # rest"
  by (subst doc.simps) (simp split: sum.splits)

text \<open>
  C6. For every original AST node (a non-\<open>nil\<close> pointer to one of the ten structs), the
  identifier is the variant-kind name followed by the decimal source offset, the label
  is the variant-kind name alone, and the node declaration that \<open>writeNode\<close> writes for it
  first is built from exactly these two.
\<close>

theorem original_node_declaration:
  assumes "kind_offset n = Some (k, off)"
  shows "getID n = Inr (k @ fmt_d off) \<and> getLabel n = Inr k
         \<and> (accepting d \<longrightarrow>
              (\<exists>rest. out_of (writeNode d n) = written (w d) @ node_line (k @ fmt_d off) k # rest))"
  using kind_offset_id_label [OF assms]
        doc_first_line [of n "k @ fmt_d off" k]
  by (auto simp: run_doc out_of_def)

text \<open>A Comparison at offset 17 is declared as \<open>Comparison17\<close> with label \<open>Comparison\<close>.\<close>

theorem original_node_declaration_witness:
  "kind_offset (DComparison (Some (Comparison 17 None None None))) = Some (''Comparison'', 17)
   \<and> getID (DComparison (Some (Comparison 17 None None None))) = Inr ''Comparison17''
   \<and> getLabel (DComparison (Some (Comparison 17 None None None))) = Inr ''Comparison''
   \<and> (\<exists>rest. out_of (writeNode fresh (DComparison (Some (Comparison 17 None None None))))
               = node_line ''Comparison17'' ''Comparison'' # rest)"
proof -
  have k: "kind_offset (DComparison (Some (Comparison 17 None None None))) = Some (''Comparison'', 17)"
    by simp
  have a: "accepting fresh"
    by (simp add: accepting_def fresh_def NewMarshaler_def)
  have f: "fmt_d 17 = ''17''"
    by (simp add: fmt_eval)
  have e: "written (w fresh) = []"
    by (simp add: fresh_def NewMarshaler_def)
  show ?thesis
    using original_node_declaration [OF k, of fresh] a k by (simp add: f e)
qed

section \<open>Arrays\<close>

lemma numbers_loop_acc:
  "numbers_loop (Suc i) s ns = s @ concat (map (\<lambda>n. '', '' @ fmt_d n) ns)"
  by (induction ns arbitrary: i s) simp_all

lemma join_Cons: "join (x # xs) sep = x @ concat (map (\<lambda>y. sep @ y) xs)"
  by (induction xs arbitrary: x) simp_all

lemma numbers_loop_join: "numbers_loop 0 [] ns = join (map fmt_d ns) '', ''"
  by (cases ns) (simp_all add: numbers_loop_acc join_Cons comp_def)

definition strings_xy :: "array ref" where
  "strings_xy = Ref 4096 \<lparr>Array_Pos = 5, Array_Strings = [''x'', ''y''], Array_Numbers = []\<rparr>"

definition numbers_12 :: "array ref" where
  "numbers_12 = Ref 4096 \<lparr>Array_Pos = 5, Array_Strings = [], Array_Numbers = [1, 2]\<rparr>"

definition both_lists :: "array ref" where
  "both_lists = Ref 4096 \<lparr>Array_Pos = 5, Array_Strings = [''x''], Array_Numbers = [7]\<rparr>"

definition no_list :: "array ref" where
  "no_list = Ref 4096 \<lparr>Array_Pos = 5, Array_Strings = [], Array_Numbers = []\<rparr>"

text \<open>
  C2 (as the code has it). For every Array node, the label of its single synthetic child
  is the string list joined by a comma when that list is not empty; otherwise it is the
  decimal integers joined by a comma followed by a space.
\<close>

theorem array_child_label:
  "getChildren (DArray (Some r)) =
     Inr [DNode (newNode (''Array'' @ fmt_p (addr r))
                 (if Array_Strings (deref r) \<noteq> []
                  then join (Array_Strings (deref r)) '',''
                  else join (map fmt_d (Array_Numbers (deref r))) '', ''))]"
  by (simp add: numbers_loop_join)

text \<open>
  An Array holding the strings \<open>x\<close> and \<open>y\<close> yields the label \<open>x,y\<close>; an Array holding the
  integers 1 and 2 yields the label \<open>1, 2\<close>.
\<close>

theorem array_child_label_witness:
  "getChildren (DArray (Some strings_xy)) = Inr [DNode \<lparr>id = ''Array0x1000'', label = ''x,y''\<rparr>]
   \<and> getChildren (DArray (Some numbers_12)) = Inr [DNode \<lparr>id = ''Array0x1000'', label = ''1, 2''\<rparr>]"
  using array_child_label [of strings_xy] array_child_label [of numbers_12]
  by (simp add: strings_xy_def numbers_12_def newNode_def fmt_eval)

text \<open>
  C2 as stated fails for integers: the label for the integers 1 and 2 is \<open>1, 2\<close>, which is
  not the comma-joined list \<open>1,2\<close>.
\<close>

theorem array_numbers_not_comma_joined:
  "getChildren (DArray (Some numbers_12)) = Inr [DNode \<lparr>id = ''Array0x1000'', label = ''1, 2''\<rparr>]
   \<and> join (map fmt_d (Array_Numbers (deref numbers_12))) '','' = ''1,2''
   \<and> getChildren (DArray (Some numbers_12))
       \<noteq> Inr [DNode \<lparr>id = ''Array0x1000'',
                      label = join (map fmt_d (Array_Numbers (deref numbers_12))) '',''\<rparr>]"
  by (simp add: numbers_12_def newNode_def fmt_eval)

lemma DArray_run:
  "accepting d \<Longrightarrow> getChildren (DArray (Some r)) = Inr [DNode c] \<Longrightarrow>
   writeNode d (DArray (Some r)) =
     (emit d [node_line (''Array'' @ fmt_d (Array_Pos (deref r))) ''Array'',
              edge_line (''Array'' @ fmt_d (Array_Pos (deref r))) (id c),
              node_line (id c) (label c)], Inr ())"
  by (simp add: run_doc doc.simps at_offset_def splitN2_def)

text \<open>
  C10. The marshaler does not defend the Array invariant. When the string list is not
  empty the synthetic child is built from the strings, whatever the integer list holds.
  When both lists are empty, child enumeration returns a synthetic child with the empty
  label, and on an accepting sink \<open>writeNode\<close> succeeds, writing the declaration of the
  Array, the edge, and the declaration of that child with an empty label.
\<close>

theorem array_invariant_not_defended:
  "(Array_Strings (deref r) \<noteq> [] \<longrightarrow>
      getChildren (DArray (Some r)) =
        Inr [DNode (newNode (''Array'' @ fmt_p (addr r)) (join (Array_Strings (deref r)) '','' ))])
   \<and> (Array_Strings (deref r) = [] \<and> Array_Numbers (deref r) = [] \<longrightarrow>
        getChildren (DArray (Some r)) = Inr [DNode (newNode (''Array'' @ fmt_p (addr r)) [])]
        \<and> (accepting d \<longrightarrow>
             writeNode d (DArray (Some r)) =
               (emit d [node_line (''Array'' @ fmt_d (Array_Pos (deref r))) ''Array'',
                        edge_line (''Array'' @ fmt_d (Array_Pos (deref r))) (''Array'' @ fmt_p (addr r)),
                        node_line (''Array'' @ fmt_p (addr r)) []], Inr ())))"
proof -
  have "accepting d \<Longrightarrow> Array_Strings (deref r) = [] \<Longrightarrow> Array_Numbers (deref r) = [] \<Longrightarrow>
        writeNode d (DArray (Some r)) =
               (emit d [node_line (''Array'' @ fmt_d (Array_Pos (deref r))) ''Array'',
                        edge_line (''Array'' @ fmt_d (Array_Pos (deref r))) (''Array'' @ fmt_p (addr r)),
                        node_line (''Array'' @ fmt_p (addr r)) []], Inr ())"
    using DArray_run [of d r "newNode (''Array'' @ fmt_p (addr r)) []"]
    by (simp add: newNode_def)
  then show ?thesis by simp
qed

text \<open>An Array with both lists populated, and an Array with both lists empty.\<close>

theorem array_invariant_not_defended_witness:
  "Array_Strings (deref both_lists) \<noteq> [] \<and> Array_Numbers (deref both_lists) \<noteq> []
   \<and> getChildren (DArray (Some both_lists)) = Inr [DNode \<lparr>id = ''Array0x1000'', label = ''x''\<rparr>]
   \<and> Array_Strings (deref no_list) = [] \<and> Array_Numbers (deref no_list) = []
   \<and> accepting fresh
   \<and> getChildren (DArray (Some no_list)) = Inr [DNode \<lparr>id = ''Array0x1000'', label = []\<rparr>]
   \<and> writeNode fresh (DArray (Some no_list)) =
        (emit fresh [node_line ''Array5'' ''Array'', edge_line ''Array5'' ''Array0x1000'',
                     node_line ''Array0x1000'' []], Inr ())"
proof -
  have a: "accepting fresh"
    by (simp add: accepting_def fresh_def NewMarshaler_def)
  show ?thesis
    using a array_invariant_not_defended [of both_lists fresh]
          array_invariant_not_defended [of no_list fresh]
    by (simp add: both_lists_def no_list_def newNode_def fmt_eval)
qed

section \<open>Malformed trees\<close>

fun empty_primary :: "dyn \<Rightarrow> bool" where
  "empty_primary (DPrimary (Some p)) =
     (Primary_Ident p = None \<and> Primary_Number p = None
      \<and> Primary_String p = None \<and> Primary_SubExpression p = None)"
| "empty_primary n = False"

text \<open>A comparison without its operator, or a scalar comparison without its right operand.\<close>

fun violates :: "dyn \<Rightarrow> bool" where
  "violates (DArrayComparison (Some a)) = (ArrayComparison_Op a = None)"
| "violates (DScalarComparison (Some s)) =
     (ScalarComparison_Op s = None \<or> ScalarComparison_Next s = None)"
| "violates n = False"

fun typed :: "dyn \<Rightarrow> bool" where
  "typed (DOther t) = False"
| "typed DNil = False"
| "typed n = True"

lemma getChildren_typed: "getChildren n = Inr cs \<Longrightarrow> c \<in> set cs \<Longrightarrow> typed c"
  by (cases n rule: getChildren.cases)
     (auto simp: opt_child_def derefNode_def ptrNode_def split: option.splits sum.splits if_splits)

lemma subnodes_typed: "y \<in> set (subnodes n) \<Longrightarrow> typed n \<Longrightarrow> typed y"
proof (induction n rule: subnodes.induct)
  case (1 n)
  show ?case
  proof (cases "getChildren n")
    case (Inl a)
    then show ?thesis using "1.prems" by (subst (asm) subnodes.simps) simp
  next
    case (Inr cs)
    then show ?thesis using "1.prems" "1.IH" [OF Inr] getChildren_typed [OF Inr]
      by (subst (asm) subnodes.simps) auto
  qed
qed

lemma subnodes_self: "n \<in> set (subnodes n)"
  by (subst subnodes.simps) simp

lemma subnodes_member:
  "m \<in> set (subnodes n) \<longleftrightarrow>
     m = n \<or> (\<exists>cs c. getChildren n = Inr cs \<and> c \<in> set cs \<and> m \<in> set (subnodes c))"
proof (cases "getChildren n")
  case (Inl a)
  then show ?thesis by (subst subnodes.simps) simp
next
  case (Inr cs)
  then show ?thesis by (subst subnodes.simps) auto
qed

lemma subnodes_children:
  "m \<in> set (subnodes n) \<Longrightarrow> getChildren m = Inr cs \<Longrightarrow> c \<in> set cs \<Longrightarrow> c \<in> set (subnodes n)"
proof (induction n rule: subnodes.induct)
  case (1 n)
  show ?case
  proof (cases "m = n")
    case True
    then show ?thesis using "1.prems" subnodes_self [of c]
      by (subst subnodes.simps) auto
  next
    case False
    then obtain ks k where ks: "getChildren n = Inr ks" and k: "k \<in> set ks" "m \<in> set (subnodes k)"
      using "1.prems"(1) subnodes_member [of m n] by blast
    have "c \<in> set (subnodes k)"
      using "1.IH" [OF ks k(1) k(2) "1.prems"(2,3)] .
    then show ?thesis using ks k(1)
      by (subst subnodes.simps) auto
  qed
qed

lemma first_fault_Some: "first_fault ns = Some a \<Longrightarrow> \<exists>y\<in>set ns. fault y = Some a"
  by (induction ns) (auto split: option.splits)

lemma first_fault_exists: "y \<in> set ns \<Longrightarrow> fault y = Some a \<Longrightarrow> \<exists>b. first_fault ns = Some b"
  by (induction ns) (auto split: option.splits)

lemma fault_kinds:
  "fault y = Some a \<Longrightarrow> typed y \<Longrightarrow>
   a = NilDereference \<or> (a = Error EmptyLeafNode \<and> empty_primary y)"
  by (cases y rule: getChildren.cases)
     (auto simp: fault_def at_offset_def derefNode_def split: option.splits sum.splits if_splits)

lemma violates_fault:
  assumes "m \<in> set (subnodes n)" and "violates m"
  shows "\<exists>x\<in>set (subnodes n). fault x = Some NilDereference"
proof (cases m rule: violates.cases)
  case (1 a)
  then have "fault m = Some NilDereference"
    using assms(2) by (simp add: fault_def at_offset_def derefNode_def)
  then show ?thesis using assms(1) by blast
next
  case (2 s)
  show ?thesis
  proof (cases "ScalarComparison_Op s")
    case None
    then have "fault m = Some NilDereference"
      using 2 by (simp add: fault_def at_offset_def derefNode_def)
    then show ?thesis using assms(1) by blast
  next
    case (Some r)
    then have nx: "ScalarComparison_Next s = None"
      using assms(2) 2 by simp
    have "getChildren m = Inr [ptrNode ''Op'' (\<lambda>s. s) r, DBitOperation None]"
      using 2 Some nx by (simp add: derefNode_def)
    then have "DBitOperation None \<in> set (subnodes n)"
      using subnodes_children [OF assms(1)] by simp
    moreover have "fault (DBitOperation None) = Some NilDereference"
      by (simp add: fault_def at_offset_def)
    ultimately show ?thesis by blast
  qed
qed (use assms(2) in simp_all)

lemma MarshalRule_ending:
  "accepting d \<Longrightarrow>
   snd (MarshalRule d (Some r))
     = ending (first_fault (subnodes (DBooleanExpression (Rule_BooleanExpression r))))"
  by (simp add: MarshalRule_accepting doc_ending split: sum.splits)

subsection \<open>The first node that cannot be served\<close>

lemma find_append_split:
  "List.find P (xs @ ys) = (case List.find P xs of None \<Rightarrow> List.find P ys | Some x \<Rightarrow> Some x)"
  by (induction xs) simp_all

lemma find_member: "List.find P xs = Some x \<Longrightarrow> x \<in> set xs \<and> P x"
  by (induction xs) (auto split: if_splits)

lemma empty_primary_fault: "empty_primary x \<Longrightarrow> fault x = Some (Error EmptyLeafNode)"
  by (cases x rule: empty_primary.cases) (simp_all add: fault_def at_offset_def)

lemma unservable_fault:
  assumes "typed x" and "\<not> node_ok x"
  shows "fault x = Some (if empty_primary x then Error EmptyLeafNode else NilDereference)"
proof (cases "empty_primary x")
  case True
  then show ?thesis by (simp add: empty_primary_fault)
next
  case False
  obtain a where a: "fault x = Some a"
    using assms(2) by (auto simp: node_ok_fault)
  then show ?thesis
    using fault_kinds [OF a assms(1)] False by simp
qed

lemma first_fault_find:
  "\<forall>x\<in>set ns. typed x \<Longrightarrow>
   first_fault ns
     = map_option (\<lambda>x. if empty_primary x then Error EmptyLeafNode else NilDereference)
         (List.find (\<lambda>x. \<not> node_ok x) ns)"
proof (induction ns)
  case Nil
  show ?case by simp
next
  case (Cons x xs)
  show ?case
  proof (cases "node_ok x")
    case True
    then have "fault x = None" by (simp add: node_ok_fault)
    then show ?thesis using True Cons by simp
  next
    case False
    have "typed x" using Cons.prems by simp
    then show ?thesis using False unservable_fault [of x] by simp
  qed
qed

text \<open>In the pre-order list, the subtree of a node follows the node without a gap.\<close>

lemma subnodes_segment_list:
  assumes "\<And>c pre post. c \<in> set cs \<Longrightarrow> subnodes c = pre @ m # post
             \<Longrightarrow> \<exists>rest. m # post = subnodes m @ rest"
  shows "concat (map subnodes cs) = pre @ m # post \<Longrightarrow> \<exists>rest. m # post = subnodes m @ rest"
  using assms
proof (induction cs arbitrary: pre)
  case Nil
  then show ?case by simp
next
  case (Cons c cs)
  let ?C = "concat (map subnodes cs)"
  have e: "subnodes c @ ?C = pre @ m # post"
    using Cons.prems(1) by simp
  then obtain us where us: "(subnodes c = pre @ us \<and> us @ ?C = m # post)
                          \<or> (subnodes c @ us = pre \<and> ?C = us @ m # post)"
    by (auto simp: append_eq_append_conv2)
  have tail: "\<And>p. ?C = p @ m # post \<Longrightarrow> \<exists>rest. m # post = subnodes m @ rest"
    using Cons.IH Cons.prems(2) by (meson list.set_intros(2))
  show ?case
  proof (cases "subnodes c = pre @ us \<and> us @ ?C = m # post")
    case True
    show ?thesis
    proof (cases us)
      case Nil
      then have "?C = [] @ m # post" using True by simp
      then show ?thesis using tail by blast
    next
      case (Cons u us')
      then have "subnodes c = pre @ m # us'" and p: "post = us' @ ?C"
        using True by simp_all
      then obtain rest where "m # us' = subnodes m @ rest"
        using Cons.prems(2) [of c pre us'] by auto
      then have "m # post = subnodes m @ (rest @ ?C)"
        using p by simp
      then show ?thesis by blast
    qed
  next
    case False
    then have "?C = us @ m # post" using us by blast
    then show ?thesis using tail by blast
  qed
qed

lemma subnodes_segment:
  "subnodes n = pre @ m # post \<Longrightarrow> \<exists>rest. m # post = subnodes m @ rest"
proof (induction n arbitrary: pre post rule: subnodes.induct)
  case (1 n)
  show ?case
  proof (cases pre)
    case Nil
    then have e: "subnodes n = m # post"
      using "1.prems" by simp
    have "hd (subnodes n) = n"
      by (subst subnodes.simps) simp
    then have "m = n" using e by simp
    then have "m # post = subnodes m @ []" using e by simp
    then show ?thesis by blast
  next
    case (Cons a pre')
    show ?thesis
    proof (cases "getChildren n")
      case (Inl e)
      then have "subnodes n = [n]" by (subst subnodes.simps) simp
      then show ?thesis using "1.prems" Cons by simp
    next
      case (Inr cs)
      then have "subnodes n = n # concat (map subnodes cs)"
        by (subst subnodes.simps) simp
      then have c: "concat (map subnodes cs) = pre' @ m # post"
        using "1.prems" Cons by simp
      have kids: "\<And>k p q. k \<in> set cs \<Longrightarrow> subnodes k = p @ m # q
                    \<Longrightarrow> \<exists>rest. m # q = subnodes m @ rest"
        using "1.IH" [OF Inr] by blast
      show ?thesis
        using subnodes_segment_list [of cs m pre' post] kids c by blast
    qed
  qed
qed

lemma violating_not_first_empty:
  assumes split: "subnodes n = pre @ m # post" and v: "violates m"
    and f: "List.find (\<lambda>x. \<not> node_ok x) (subnodes n) = Some x"
    and e: "empty_primary x"
  shows "x \<in> set pre"
proof (cases "List.find (\<lambda>x. \<not> node_ok x) pre")
  case (Some y)
  then have "x = y" using f by (simp add: split find_append_split)
  then show ?thesis using find_member [OF Some] by simp
next
  case None
  then have fm: "List.find (\<lambda>x. \<not> node_ok x) (m # post) = Some x"
    using f by (simp add: split find_append_split)
  have False
  proof (cases "node_ok m")
    case False
    then have "x = m" using fm by simp
    then show False using v e by (cases m rule: violates.cases) simp_all
  next
    case True
    then obtain s r where m: "m = DScalarComparison (Some s)"
      and op: "ScalarComparison_Op s = Some r" and nx: "ScalarComparison_Next s = None"
      using v by (cases m rule: violates.cases) auto
    have "subnodes m = [m, ptrNode ''Op'' (\<lambda>x. x) r, DBitOperation None]"
      by (simp add: m op nx subnodes.simps derefNode_def ptrNode_def)
    moreover obtain rest where "m # post = subnodes m @ rest"
      using subnodes_segment [OF split] by blast
    ultimately have "post = ptrNode ''Op'' (\<lambda>x. x) r # DBitOperation None # rest"
      by simp
    then have "x = DBitOperation None"
      using fm True by (simp add: ptrNode_def)
    then show False using e by simp
  qed
  then show ?thesis ..
qed

text \<open>
  C9 (as the code has it). Child enumeration dereferences the operator of an array or
  scalar comparison without a \<open>nil\<close> check, and the traversal reads the offset of the
  right operand of a scalar comparison without one. When the operator is present, child
  enumeration returns the operator node and the operand; when the right operand is
  present too, its identifier is defined. When child enumeration reaches a node that
  lacks its operator or its right operand, a run on an accepting sink never succeeds,
  and it ends as the first node in traversal order that cannot be served dictates: with
  the empty-primary error when that node is a Primary with no alternative, which then
  stands before the violating node in traversal order, and with a panic otherwise. In
  particular the run panics whenever no Primary with no alternative stands before the
  violating node.
\<close>

theorem missing_operator_or_operand:
  "(ArrayComparison_Op a = Some o1 \<longrightarrow>
      getChildren (DArrayComparison (Some a))
        = Inr [ptrNode ''Op'' (\<lambda>x. x) o1, DArray (ArrayComparison_Array a)])
   \<and> (ScalarComparison_Op s = Some o2 \<and> ScalarComparison_Next s = Some b \<longrightarrow>
        getChildren (DScalarComparison (Some s))
          = Inr [ptrNode ''Op'' (\<lambda>x. x) o2, DBitOperation (Some b)]
        \<and> getID (DBitOperation (Some b)) = Inr (''BitOperation'' @ fmt_d (BitOperation_Pos b)))
   \<and> (accepting d
        \<and> subnodes (DBooleanExpression (Rule_BooleanExpression r)) = pre @ m # post
        \<and> violates m \<longrightarrow>
        (\<exists>x. List.find (\<lambda>x. \<not> node_ok x) (subnodes (DBooleanExpression (Rule_BooleanExpression r)))
               = Some x
             \<and> snd (MarshalRule d (Some r))
                = Inl (if empty_primary x then Error EmptyLeafNode else NilDereference)
             \<and> (empty_primary x \<longrightarrow> x \<in> set pre))
        \<and> ((\<forall>p\<in>set pre. \<not> empty_primary p) \<longrightarrow>
              snd (MarshalRule d (Some r)) = Inl NilDereference)
        \<and> (snd (MarshalRule d (Some r)) = Inl NilDereference
            \<or> (snd (MarshalRule d (Some r)) = Inl (Error EmptyLeafNode)
                \<and> (\<exists>p\<in>set (subnodes (DBooleanExpression (Rule_BooleanExpression r))).
                      empty_primary p))))"
proof -
  let ?root = "DBooleanExpression (Rule_BooleanExpression r)"
  let ?run = "snd (MarshalRule d (Some r))"
  have run: "(\<exists>x. List.find (\<lambda>x. \<not> node_ok x) (subnodes ?root) = Some x
             \<and> ?run = Inl (if empty_primary x then Error EmptyLeafNode else NilDereference)
             \<and> (empty_primary x \<longrightarrow> x \<in> set pre))
        \<and> ((\<forall>p\<in>set pre. \<not> empty_primary p) \<longrightarrow> ?run = Inl NilDereference)
        \<and> (?run = Inl NilDereference
            \<or> (?run = Inl (Error EmptyLeafNode) \<and> (\<exists>p\<in>set (subnodes ?root). empty_primary p)))"
    if d: "accepting d" and split: "subnodes ?root = pre @ m # post" and v: "violates m"
  proof -
    have m: "m \<in> set (subnodes ?root)"
      by (simp add: split)
    obtain y where "y \<in> set (subnodes ?root)" "fault y = Some NilDereference"
      using violates_fault [OF m v] by blast
    then have "\<not> node_ok y" by (simp add: node_ok_fault)
    then have "List.find (\<lambda>x. \<not> node_ok x) (subnodes ?root) \<noteq> None"
      using \<open>y \<in> set (subnodes ?root)\<close> by (auto simp: find_None_iff)
    then obtain x where x: "List.find (\<lambda>x. \<not> node_ok x) (subnodes ?root) = Some x"
      by blast
    have "\<forall>z\<in>set (subnodes ?root). typed z"
      using subnodes_typed [of _ ?root] by simp
    then have "first_fault (subnodes ?root)
               = Some (if empty_primary x then Error EmptyLeafNode else NilDereference)"
      using first_fault_find [of "subnodes ?root"] x by simp
    then have res: "?run = Inl (if empty_primary x then Error EmptyLeafNode else NilDereference)"
      using MarshalRule_ending [OF d] by (simp add: ending_def)
    have before: "empty_primary x \<longrightarrow> x \<in> set pre"
      using violating_not_first_empty [OF split v x] by blast
    have xin: "x \<in> set (subnodes ?root)"
      using find_member [OF x] by simp
    show ?thesis
      using x res before xin by (cases "empty_primary x") auto
  qed
  show ?thesis
    using run by (simp add: derefNode_def at_offset_def)
qed

text \<open>The rule \<open>a == 1\<close> with the operator of its scalar comparison missing.\<close>

definition missing_op :: rule where
  "missing_op =
     \<lparr>Rule_Pos = 0,
      Rule_BooleanExpression = Some
       \<lparr>BooleanExpression_Pos = 0,
        BooleanExpression_Expression = Some
         (Expression 0
           (Some (Comparison 0
             (Some (BitOperation 0
               (Some (Unary 0 None None
                 (Some (Primary 0 (Some (Ref 4096 ''a'')) None None None))))
               None None))
             (Some (ScalarComparison 2 None None))
             None))
           None None)\<rparr>\<rparr>"

text \<open>The same, with a left operand whose Primary has no alternative.\<close>

definition missing_op_after_empty :: rule where
  "missing_op_after_empty =
     \<lparr>Rule_Pos = 0,
      Rule_BooleanExpression = Some
       \<lparr>BooleanExpression_Pos = 0,
        BooleanExpression_Expression = Some
         (Expression 0
           (Some (Comparison 0
             (Some (BitOperation 0
               (Some (Unary 0 None None
                 (Some (Primary 0 None None None None))))
               None None))
             (Some (ScalarComparison 2 None None))
             None))
           None None)\<rparr>\<rparr>"

lemmas tree_eval = subnodes.simps opt_child_def derefNode_def ptrNode_def newNode_def

text \<open>
  The rule \<open>a == 1 and <nothing>\<close> without the operator of its scalar comparison: the
  comparison is reached before the Primary with no alternative.
\<close>

definition missing_op_before_empty :: rule where
  "missing_op_before_empty =
     \<lparr>Rule_Pos = 0,
      Rule_BooleanExpression = Some
       \<lparr>BooleanExpression_Pos = 0,
        BooleanExpression_Expression = Some
         (Expression 0
           (Some (Comparison 0
             (Some (BitOperation 0
               (Some (Unary 0 None None
                 (Some (Primary 0 (Some (Ref 4096 ''a'')) None None None))))
               None None))
             (Some (ScalarComparison 2 None None))
             None))
           (Some (Ref 4128 ''and''))
           (Some (Expression 7
             (Some (Comparison 7
               (Some (BitOperation 7
                 (Some (Unary 7 None None
                   (Some (Primary 7 None None None None))))
                 None None))
               None None))
             None None)))\<rparr>\<rparr>"

text \<open>
  An array comparison and a scalar comparison that carry their operator; the rule
  \<open>a == 1\<close> without its operator, which panics; the same followed by \<open>and <nothing>\<close>, which
  panics although a Primary with no alternative comes later; and the same with nothing
  in the left operand, which returns the empty-primary error.
\<close>

theorem missing_operator_or_operand_witness:
  "getChildren (DArrayComparison (Some \<lparr>ArrayComparison_Pos = 2,
          ArrayComparison_Op = Some (Ref 4112 ''in''), ArrayComparison_Array = None\<rparr>))
       = Inr [ptrNode ''Op'' (\<lambda>x. x) (Ref 4112 ''in''), DArray None]
   \<and> getChildren (DScalarComparison (Some (ScalarComparison 2 (Some (Ref 4112 ''==''))
          (Some (BitOperation 5 None None None)))))
       = Inr [ptrNode ''Op'' (\<lambda>x. x) (Ref 4112 ''==''), DBitOperation (Some (BitOperation 5 None None None))]
   \<and> accepting fresh
   \<and> violates (DScalarComparison (Some (ScalarComparison 2 None None)))
   \<and> subnodes (DBooleanExpression (Rule_BooleanExpression missing_op))
       = take 7 (subnodes (DBooleanExpression (Rule_BooleanExpression missing_op)))
         @ DScalarComparison (Some (ScalarComparison 2 None None)) # []
   \<and> snd (MarshalRule fresh (Some missing_op)) = Inl NilDereference
   \<and> subnodes (DBooleanExpression (Rule_BooleanExpression missing_op_before_empty))
       = take 7 (subnodes (DBooleanExpression (Rule_BooleanExpression missing_op_before_empty)))
         @ DScalarComparison (Some (ScalarComparison 2 None None))
         # drop 8 (subnodes (DBooleanExpression (Rule_BooleanExpression missing_op_before_empty)))
   \<and> DPrimary (Some (Primary 7 None None None None))
       \<in> set (drop 8 (subnodes (DBooleanExpression (Rule_BooleanExpression missing_op_before_empty))))
   \<and> snd (MarshalRule fresh (Some missing_op_before_empty)) = Inl NilDereference
   \<and> subnodes (DBooleanExpression (Rule_BooleanExpression missing_op_after_empty))
       = take 6 (subnodes (DBooleanExpression (Rule_BooleanExpression missing_op_after_empty)))
         @ DScalarComparison (Some (ScalarComparison 2 None None)) # []
   \<and> DPrimary (Some (Primary 0 None None None None))
       \<in> set (take 6 (subnodes (DBooleanExpression (Rule_BooleanExpression missing_op_after_empty))))
   \<and> snd (MarshalRule fresh (Some missing_op_after_empty)) = Inl (Error EmptyLeafNode)"
proof -
  let ?m = "DScalarComparison (Some (ScalarComparison 2 None None))"
  let ?A = "DBooleanExpression (Rule_BooleanExpression missing_op)"
  let ?B = "DBooleanExpression (Rule_BooleanExpression missing_op_before_empty)"
  let ?C = "DBooleanExpression (Rule_BooleanExpression missing_op_after_empty)"
  have a: "accepting fresh"
    by (simp add: accepting_def fresh_def NewMarshaler_def)
  have v: "violates ?m"
    by simp
  have sA: "subnodes ?A = take 7 (subnodes ?A) @ ?m # []"
    by (simp add: missing_op_def tree_eval)
  have nA: "\<forall>p\<in>set (take 7 (subnodes ?A)). \<not> empty_primary p"
    by (simp add: missing_op_def tree_eval)
  have sB: "subnodes ?B = take 7 (subnodes ?B) @ ?m # drop 8 (subnodes ?B)"
    by (simp add: missing_op_before_empty_def tree_eval)
  have nB: "\<forall>p\<in>set (take 7 (subnodes ?B)). \<not> empty_primary p"
    by (simp add: missing_op_before_empty_def tree_eval)
  have lB: "DPrimary (Some (Primary 7 None None None None)) \<in> set (drop 8 (subnodes ?B))"
    by (simp add: missing_op_before_empty_def tree_eval)
  have sC: "subnodes ?C = take 6 (subnodes ?C) @ ?m # []"
    by (simp add: missing_op_after_empty_def tree_eval)
  have fC: "List.find (\<lambda>x. \<not> node_ok x) (subnodes ?C)
            = Some (DPrimary (Some (Primary 0 None None None None)))"
    by (simp add: missing_op_after_empty_def tree_eval)
  have eC: "DPrimary (Some (Primary 0 None None None None)) \<in> set (take 6 (subnodes ?C))"
    by (simp add: missing_op_after_empty_def tree_eval)
  note t = missing_operator_or_operand
             [where a = "\<lparr>ArrayComparison_Pos = 2, ArrayComparison_Op = Some (Ref 4112 ''in''),
                           ArrayComparison_Array = None\<rparr>"
                and ?o1.0 = "Ref 4112 ''in''"
                and s = "ScalarComparison 2 (Some (Ref 4112 ''=='')) (Some (BitOperation 5 None None None))"
                and ?o2.0 = "Ref 4112 ''==''" and b = "BitOperation 5 None None None"
                and d = fresh and m = ?m]
  have rA: "snd (MarshalRule fresh (Some missing_op)) = Inl NilDereference"
    using t [where r = missing_op and pre = "take 7 (subnodes ?A)" and post = "[]"] a v sA nA
    by blast
  have rB: "snd (MarshalRule fresh (Some missing_op_before_empty)) = Inl NilDereference"
    using t [where r = missing_op_before_empty and pre = "take 7 (subnodes ?B)"
               and post = "drop 8 (subnodes ?B)"] a v sB nB
    by blast
  have rC: "snd (MarshalRule fresh (Some missing_op_after_empty)) = Inl (Error EmptyLeafNode)"
    using t [where r = missing_op_after_empty and pre = "take 6 (subnodes ?C)" and post = "[]"]
          a v sC fC
    by auto
  have loc: "getChildren (DArrayComparison (Some \<lparr>ArrayComparison_Pos = 2,
          ArrayComparison_Op = Some (Ref 4112 ''in''), ArrayComparison_Array = None\<rparr>))
       = Inr [ptrNode ''Op'' (\<lambda>x. x) (Ref 4112 ''in''), DArray None]
   \<and> getChildren (DScalarComparison (Some (ScalarComparison 2 (Some (Ref 4112 ''==''))
          (Some (BitOperation 5 None None None)))))
       = Inr [ptrNode ''Op'' (\<lambda>x. x) (Ref 4112 ''==''), DBitOperation (Some (BitOperation 5 None None None))]"
    using t [where r = missing_op and pre = "[]" and post = "[]"] by simp
  show ?thesis
    using loc a v sA rA sB lB rB sC eC rC by blast
qed

text \<open>
  C9 as stated fails: a rule whose scalar comparison lacks operator and operand, but whose
  left operand is a Primary with no alternative, returns the empty-primary error; it
  does not crash.
\<close>

theorem missing_operator_returns_error:
  "violates (DScalarComparison (Some (ScalarComparison 2 None None)))
   \<and> DScalarComparison (Some (ScalarComparison 2 None None))
       \<in> set (subnodes (DBooleanExpression (Rule_BooleanExpression missing_op_after_empty)))
   \<and> snd (MarshalRule fresh (Some missing_op_after_empty)) = Inl (Error EmptyLeafNode)
   \<and> snd (MarshalRule fresh (Some missing_op_after_empty)) \<noteq> Inl NilDereference"
  by (simp add: missing_op_after_empty_def tree_eval) (simp add: run_eval fmt_eval)

section \<open>A Primary with no alternative\<close>

lemma getID_not_empty_leaf: "getID n \<noteq> Inl (Error EmptyLeafNode)"
  by (cases n) (simp_all add: at_offset_def split: option.splits)

lemma getChildren_empty_leaf:
  "getChildren n = Inl (Error EmptyLeafNode) \<Longrightarrow>
   \<exists>q. getID n = Inr (''Primary'' @ fmt_d (Primary_Pos q)) \<and> getLabel n = Inr ''Primary''"
  by (cases n rule: getChildren.cases)
     (auto simp: at_offset_def derefNode_def splitN2_def split: option.splits sum.splits if_splits)

definition primary_line :: "string \<Rightarrow> bool" where
  "primary_line l = (\<exists>q. l = node_line (''Primary'' @ fmt_d (Primary_Pos q)) ''Primary'')"

lemma doc_empty_leaf_last:
  "snd (doc n) = Inl (Error EmptyLeafNode) \<Longrightarrow>
     \<exists>body l. fst (doc n) = body @ [l] \<and> primary_line l"
  "snd (doc_loop n cs) = Inl (Error EmptyLeafNode) \<Longrightarrow>
     \<exists>body l. fst (doc_loop n cs) = body @ [l] \<and> primary_line l"
proof (induction n and n cs rule: doc_doc_loop.induct)
  case (1 n)
  show ?case
  proof (cases "getID n")
    case (Inl a)
    then show ?thesis using "1.prems" getID_not_empty_leaf [of n]
      by (subst (asm) doc.simps) simp
  next
    case i: (Inr i)
    then obtain l where l: "getLabel n = Inr l"
      using getLabel_defined by blast
    show ?thesis
    proof (cases "getChildren n")
      case (Inl a)
      then have "a = Error EmptyLeafNode"
        using "1.prems" i l by (subst (asm) doc.simps) simp
      then have "primary_line (node_line i l)"
        using getChildren_empty_leaf [of n] Inl i l by (auto simp: primary_line_def)
      moreover have "fst (doc n) = [] @ [node_line i l]"
        using Inl i l by (subst doc.simps) simp
      ultimately show ?thesis by blast
    next
      case (Inr ks)
      have "snd (doc_loop n ks) = Inl (Error EmptyLeafNode)"
        using "1.prems" i l Inr by (subst (asm) doc.simps) simp
      then obtain body x where "fst (doc_loop n ks) = body @ [x]" "primary_line x"
        using "1.IH" [OF i l Inr] by blast
      moreover have "fst (doc n) = node_line i l # fst (doc_loop n ks)"
        using i l Inr by (subst doc.simps) simp
      ultimately have "fst (doc n) = (node_line i l # body) @ [x] \<and> primary_line x"
        by simp
      then show ?thesis by blast
    qed
  qed
next
  case (2 n)
  then show ?case by simp
next
  case (3 n c cs)
  show ?case
  proof (cases "getID n")
    case (Inl a)
    then show ?thesis using "3.prems" getID_not_empty_leaf [of n] by simp
  next
    case p: (Inr p)
    show ?thesis
    proof (cases "getID c")
      case (Inl a)
      then show ?thesis using "3.prems" p getID_not_empty_leaf [of c] by simp
    next
      case ci: (Inr ci)
      show ?thesis
      proof (cases "snd (doc c)")
        case (Inl a)
        then have "snd (doc c) = Inl (Error EmptyLeafNode)"
          using "3.prems" p ci by simp
        then obtain body x where "fst (doc c) = body @ [x]" "primary_line x"
          using "3.IH"(1) [OF p ci] by blast
        then have "fst (doc_loop n (c # cs)) = (edge_line p ci # body) @ [x] \<and> primary_line x"
          using p ci Inl by simp
        then show ?thesis by blast
      next
        case (Inr u)
        then have "snd (doc_loop n cs) = Inl (Error EmptyLeafNode)"
          using "3.prems" p ci by simp
        then obtain body x where "fst (doc_loop n cs) = body @ [x]" "primary_line x"
          using "3.IH" p ci Inr by blast
        then have "fst (doc_loop n (c # cs)) = (edge_line p ci # fst (doc c) @ body) @ [x]
                   \<and> primary_line x"
          using p ci Inr by simp
        then show ?thesis by blast
      qed
    qed
  qed
qed

text \<open>
  C4 (as the code has it). When the traversal reaches a Primary with none of its four
  alternatives, every node before it in traversal order being servable and the sink
  accepting every write, \<open>MarshalRule\<close> returns the empty-primary error. Everything written
  before stays in the sink: the header, then the lines of the subtrees processed
  earlier, the last line being the declaration of a Primary; the footer is not written.
\<close>

theorem empty_primary_reached:
  assumes "accepting d"
    and "subnodes (DBooleanExpression (Rule_BooleanExpression r)) = pre @ DPrimary (Some p) # post"
    and "list_all node_ok pre"
    and "empty_primary (DPrimary (Some p))"
  shows "snd (MarshalRule d (Some r)) = Inl (Error EmptyLeafNode)
         \<and> (\<exists>body l. out_of (MarshalRule d (Some r))
                       = written (w d) @ [''digraph {\<newline>''] @ body @ [l] \<and> primary_line l)"
proof -
  let ?root = "DBooleanExpression (Rule_BooleanExpression r)"
  have "fault (DPrimary (Some p)) = Some (Error EmptyLeafNode)"
    using assms(4) by (simp add: fault_def at_offset_def)
  moreover have "first_fault pre = None"
    using assms(3) by (simp add: first_fault_None)
  ultimately have "first_fault (subnodes ?root) = Some (Error EmptyLeafNode)"
    by (simp add: assms(2) first_fault_append)
  then have e: "snd (doc ?root) = Inl (Error EmptyLeafNode)"
    by (simp add: doc_ending ending_def)
  then obtain body l where "fst (doc ?root) = body @ [l]" "primary_line l"
    using doc_empty_leaf_last(1) by blast
  then show ?thesis
    using assms(1) e by (simp add: MarshalRule_accepting out_of_def)
qed


text \<open>The rule \<open>a == 1\<close> with nothing in the Primary of the right operand.\<close>

definition empty_right :: rule where
  "empty_right =
     \<lparr>Rule_Pos = 0,
      Rule_BooleanExpression = Some
       \<lparr>BooleanExpression_Pos = 0,
        BooleanExpression_Expression = Some
         (Expression 0
           (Some (Comparison 0
             (Some (BitOperation 0
               (Some (Unary 0 None None
                 (Some (Primary 0 (Some (Ref 4096 ''a'')) None None None))))
               None None))
             (Some (ScalarComparison 2 (Some (Ref 4112 ''==''))
               (Some (BitOperation 5
                 (Some (Unary 5 None None
                   (Some (Primary 5 None None None None))))
                 None None))))
             None))
           None None)\<rparr>\<rparr>"

text \<open>
  A rule whose only reachable Primary holds an identifier and, beside it, a
  sub-expression that contains a Primary with no alternative.
\<close>

definition shadowed_empty :: rule where
  "shadowed_empty =
     \<lparr>Rule_Pos = 0,
      Rule_BooleanExpression = Some
       \<lparr>BooleanExpression_Pos = 0,
        BooleanExpression_Expression = Some
         (Expression 0
           (Some (Comparison 0
             (Some (BitOperation 0
               (Some (Unary 0 None None
                 (Some (Primary 0 (Some (Ref 4096 ''a'')) None None
                   (Some (Expression 1
                     (Some (Comparison 1
                       (Some (BitOperation 1
                         (Some (Unary 1 None None
                           (Some (Primary 1 None None None None))))
                         None None))
                       None None))
                     None None))))))
               None None))
             None None))
           None None)\<rparr>\<rparr>"

text \<open>A sink that refuses every write.\<close>

definition closed_sink :: Marshaler where
  "closed_sink = NewMarshaler \<lparr>written = [], refuse = (\<lambda>h s. Some ''closed'')\<rparr>"

text \<open>
  In \<open>a == <nothing>\<close> eleven nodes, the whole left operand among them, are served before
  the empty Primary is reached.
\<close>

theorem empty_primary_reached_witness:
  "accepting fresh
   \<and> subnodes (DBooleanExpression (Rule_BooleanExpression empty_right))
       = take 11 (subnodes (DBooleanExpression (Rule_BooleanExpression empty_right)))
         @ DPrimary (Some (Primary 5 None None None None)) # []
   \<and> length (take 11 (subnodes (DBooleanExpression (Rule_BooleanExpression empty_right)))) = 11
   \<and> list_all node_ok (take 11 (subnodes (DBooleanExpression (Rule_BooleanExpression empty_right))))
   \<and> empty_primary (DPrimary (Some (Primary 5 None None None None)))
   \<and> snd (MarshalRule fresh (Some empty_right)) = Inl (Error EmptyLeafNode)
   \<and> (\<exists>body l. out_of (MarshalRule fresh (Some empty_right))
                 = written (w fresh) @ [''digraph {\<newline>''] @ body @ [l] \<and> primary_line l)"
proof -
  have a: "accepting fresh"
    by (simp add: accepting_def fresh_def NewMarshaler_def)
  have s: "subnodes (DBooleanExpression (Rule_BooleanExpression empty_right))
       = take 11 (subnodes (DBooleanExpression (Rule_BooleanExpression empty_right)))
         @ DPrimary (Some (Primary 5 None None None None)) # []"
    by (simp add: empty_right_def tree_eval)
  have k: "list_all node_ok (take 11 (subnodes (DBooleanExpression (Rule_BooleanExpression empty_right))))"
    by (simp add: empty_right_def tree_eval)
  have n: "length (take 11 (subnodes (DBooleanExpression (Rule_BooleanExpression empty_right)))) = 11"
    by (simp add: empty_right_def tree_eval)
  have e: "empty_primary (DPrimary (Some (Primary 5 None None None None)))"
    by simp
  show ?thesis
    using a s k n e empty_primary_reached [OF a s k e] by blast
qed

text \<open>
  C4 as stated fails: an AST can contain a Primary with no alternative and serialize
  successfully, because child enumeration stops at the first populated alternative of a
  Primary and never looks at a sub-expression stored beside an identifier; and on a sink
  that refuses its first write the error returned is the write failure.
\<close>

theorem empty_primary_not_reported:
  "snd (MarshalRule fresh (Some shadowed_empty)) = Inr ()
   \<and> snd (MarshalRule closed_sink (Some empty_right)) = Inl (Error (WriteFailure ''closed''))"
  by (simp add: run_eval shadowed_empty_def closed_sink_def empty_right_def fmt_eval)

section \<open>Identifiers determine what they were built from\<close>

lemma digit_char_inj: "i < 16 \<Longrightarrow> j < 16 \<Longrightarrow> digit_char i = digit_char j \<Longrightarrow> i = j"
proof -
  have "distinct ''0123456789abcdef''" by simp
  then show "i < 16 \<Longrightarrow> j < 16 \<Longrightarrow> digit_char i = digit_char j \<Longrightarrow> i = j"
    unfolding digit_char_def by (simp add: nth_eq_iff_index_eq)
qed

lemma digit_char_mem: "i < 16 \<Longrightarrow> digit_char i \<in> set ''0123456789abcdef''"
  unfolding digit_char_def by (rule nth_mem) simp

lemma digit_char_decimal: "i < 10 \<Longrightarrow> digit_char i \<in> set ''0123456789''"
proof -
  assume i: "i < 10"
  have "''0123456789abcdef'' = ''0123456789'' @ ''abcdef''" by simp
  then have "digit_char i = (''0123456789'' @ ''abcdef'') ! i"
    by (simp only: digit_char_def)
  also have "\<dots> = ''0123456789'' ! i"
    using i by (subst nth_append) simp
  finally show ?thesis
    using i nth_mem [of i "''0123456789''"] by simp
qed

lemma digits_not_Nil: "digits b n \<noteq> []"
  by (subst digits.simps) simp

lemma digits_chars:
  "2 \<le> b \<Longrightarrow> b \<le> 16 \<Longrightarrow> set (digits b n) \<subseteq> set ''0123456789abcdef''"
proof (induction b n rule: digits.induct)
  case (1 b n)
  show ?case
  proof (cases "b \<le> n")
    case True
    have "0 < b" using "1.prems" by simp
    then have "n mod b < b" by (rule mod_less_divisor)
    then have "n mod b < 16" using "1.prems"(2) by (rule less_le_trans)
    then show ?thesis
      using True "1.prems" "1.IH" digit_char_mem [of "n mod b"]
      by (subst digits.simps) simp
  next
    case False
    then have "n < 16" using "1.prems" by simp
    then show ?thesis
      using False digit_char_mem [of n] by (subst digits.simps) simp
  qed
qed

lemma decimal_chars: "set (digits 10 n) \<subseteq> set ''0123456789''"
proof (induction "10::nat" n rule: digits.induct)
  case (1 n)
  show ?case
  proof (cases "10 \<le> n")
    case True
    then show ?thesis
      using "1.hyps" digit_char_decimal [of "n mod 10"]
      by (subst digits.simps) simp
  next
    case False
    then show ?thesis
      using digit_char_decimal [of n] by (subst digits.simps) simp
  qed
qed

lemma digits_inj:
  "2 \<le> b \<Longrightarrow> b \<le> 16 \<Longrightarrow> digits b n = digits b m \<Longrightarrow> n = m"
proof (induction b n arbitrary: m rule: digits.induct)
  case (1 b n)
  have len: "\<And>k. b \<le> k \<Longrightarrow> 2 \<le> length (digits b k)"
  proof -
    fix k assume "b \<le> k"
    then have "digits b k = digits b (k div b) @ [digit_char (k mod b)]"
      using "1.prems"(1) by (simp add: digits_big)
    moreover have "1 \<le> length (digits b (k div b))"
      using digits_not_Nil [of b "k div b"] by (cases "digits b (k div b)") simp_all
    ultimately show "2 \<le> length (digits b k)" by simp
  qed
  show ?case
  proof (cases "b \<le> n")
    case n: True
    show ?thesis
    proof (cases "b \<le> m")
      case m: True
      have "digits b (n div b) @ [digit_char (n mod b)] = digits b (m div b) @ [digit_char (m mod b)]"
        using "1.prems" n m by (simp add: digits_big)
      then have d: "digits b (n div b) = digits b (m div b)"
        and c: "digit_char (n mod b) = digit_char (m mod b)"
        by simp_all
      have "n div b = m div b"
        using "1.IH" [OF _ "1.prems"(1,2) d] "1.prems"(1) n by simp
      moreover have "n mod b = m mod b"
      proof -
        have "0 < b" using "1.prems"(1) by simp
        then have "n mod b < b" "m mod b < b"
          by (rule mod_less_divisor)+
        then have "n mod b < 16" "m mod b < 16"
          using "1.prems"(2) by linarith+
        then show ?thesis using c digit_char_inj by blast
      qed
      ultimately show ?thesis
        by (metis div_mult_mod_eq)
    next
      case False
      then have "length (digits b m) = 1" by (simp add: digits_small)
      then show ?thesis using len [OF n] "1.prems"(3) by simp
    qed
  next
    case n: False
    show ?thesis
    proof (cases "b \<le> m")
      case True
      have "length (digits b n) = 1" using n by (simp add: digits_small)
      then show ?thesis using len [OF True] "1.prems"(3) by simp
    next
      case False
      then have "digit_char n = digit_char m"
        using n "1.prems"(3) by (simp add: digits_small)
      moreover have "n < 16" "m < 16" using n False "1.prems"(2) by simp_all
      ultimately show ?thesis using digit_char_inj by blast
    qed
  qed
qed

lemma fmt_p_inj: "fmt_p a = fmt_p b \<Longrightarrow> a = b"
  using digits_inj [of 16 a b] by (simp add: fmt_p_def)

lemma fmt_d_inj: "fmt_d x = fmt_d y \<Longrightarrow> x = y"
proof -
  assume e: "fmt_d x = fmt_d y"
  have no_minus: "\<And>n s. digits 10 n \<noteq> CHR ''-'' # s"
  proof
    fix n s assume "digits 10 n = CHR ''-'' # s"
    then have "CHR ''-'' \<in> set (digits 10 n)" by simp
    then show False using decimal_chars [of n] by auto
  qed
  show "x = y"
  proof (cases "x < 0")
    case x: True
    show ?thesis
    proof (cases "y < 0")
      case True
      then have "nat (- x) = nat (- y)"
        using e x digits_inj [of 10 "nat (- x)" "nat (- y)"] by (simp add: fmt_d_def)
      then show ?thesis using x True by simp
    next
      case False
      then have "CHR ''-'' # digits 10 (nat (- x)) = digits 10 (nat y)"
        using e x by (simp add: fmt_d_def)
      then show ?thesis using no_minus [of "nat y" "digits 10 (nat (- x))"] by simp
    qed
  next
    case x: False
    show ?thesis
    proof (cases "y < 0")
      case True
      then have "digits 10 (nat x) = CHR ''-'' # digits 10 (nat (- y))"
        using e x by (simp add: fmt_d_def)
      then show ?thesis using no_minus [of "nat x" "digits 10 (nat (- y))"] by simp
    next
      case False
      then have "nat x = nat y"
        using e x digits_inj [of 10 "nat x" "nat y"] by (simp add: fmt_d_def)
      then show ?thesis using x False by simp
    qed
  qed
qed

text \<open>The characters that can begin what a formatting verb prints.\<close>

definition lead :: "char \<Rightarrow> bool" where
  "lead c = (c \<in> set ''-0123456789'')"

lemma fmt_d_lead: "\<exists>c s. fmt_d x = c # s \<and> lead c"
proof (cases "x < 0")
  case True
  then show ?thesis by (simp add: fmt_d_def lead_def)
next
  case False
  obtain c s where cs: "digits 10 (nat x) = c # s"
    using digits_not_Nil [of 10 "nat x"] by (cases "digits 10 (nat x)") auto
  then have "c \<in> set ''0123456789''"
    using decimal_chars [of "nat x"] by auto
  then show ?thesis using False cs by (auto simp: fmt_d_def lead_def)
qed

lemma fmt_p_lead: "\<exists>c s. fmt_p a = c # s \<and> lead c"
  by (simp add: fmt_p_def lead_def)

lemma fmt_d_chars: "set (fmt_d x) \<subseteq> set ''-0123456789''"
proof -
  define S where "S = set ''-0123456789''"
  have m: "CHR ''-'' \<in> S"
    by (simp add: S_def)
  have sub: "set ''0123456789'' \<subseteq> S"
    by (simp add: S_def subset_insertI2)
  have dg: "set (digits 10 n) \<subseteq> S" for n
    using decimal_chars [of n] sub by (rule subset_trans)
  have "set (fmt_d x) \<subseteq> S"
    using m dg by (simp add: fmt_d_def)
  then show ?thesis
    by (simp only: S_def)
qed

lemma fmt_d_not_fmt_p: "fmt_d x \<noteq> fmt_p a"
proof
  assume "fmt_d x = fmt_p a"
  then have "CHR ''x'' \<in> set (fmt_d x)" by (simp add: fmt_p_def)
  moreover have "CHR ''x'' \<notin> set ''-0123456789''" by simp
  ultimately show False using fmt_d_chars [of x] by blast
qed

lemma name_tail_unique:
  assumes "\<forall>c\<in>set k. \<not> lead c" "\<forall>c\<in>set k'. \<not> lead c"
    and "t = c # s" "lead c" "t' = c' # s'" "lead c'"
    and "k @ t = k' @ t'"
  shows "k = k' \<and> t = t'"
proof -
  have "takeWhile (\<lambda>x. \<not> lead x) (k @ t) = k"
    using assms(1,3,4) by (simp add: takeWhile_tail)
  moreover have "takeWhile (\<lambda>x. \<not> lead x) (k' @ t') = k'"
    using assms(2,5,6) by (simp add: takeWhile_tail)
  ultimately have "k = k'" using assms(7) by simp
  then show ?thesis using assms(7) by simp
qed

lemma no_bracket_fmt:
  "CHR ''['' \<notin> set (fmt_d x)" "CHR ''['' \<notin> set (fmt_p a)"
  "CHR '' '' \<notin> set (fmt_d x)" "CHR '' '' \<notin> set (fmt_p a)"
proof -
  have d: "CHR ''['' \<notin> set ''-0123456789''" "CHR '' '' \<notin> set ''-0123456789''"
    by simp_all
  have h: "CHR ''['' \<notin> set ''0123456789abcdef''" "CHR '' '' \<notin> set ''0123456789abcdef''"
    by simp_all
  show "CHR ''['' \<notin> set (fmt_d x)" "CHR '' '' \<notin> set (fmt_d x)"
    using d fmt_d_chars [of x] by blast+
  have "set (digits 16 a) \<subseteq> set ''0123456789abcdef''"
    by (rule digits_chars) simp_all
  then have "CHR ''['' \<notin> set (digits 16 a)" "CHR '' '' \<notin> set (digits 16 a)"
    using h by blast+
  then show "CHR ''['' \<notin> set (fmt_p a)" "CHR '' '' \<notin> set (fmt_p a)"
    by (simp_all add: fmt_p_def)
qed

section \<open>The declarations of a well-formed tree\<close>

definition ident :: "dyn \<Rightarrow> string" where
  "ident n = (case getID n of Inl a \<Rightarrow> [] | Inr i \<Rightarrow> i)"

definition clean :: "dyn \<Rightarrow> bool" where
  "clean n = (CHR ''['' \<notin> set (ident n))"

lemma getChildren_clean: "getChildren n = Inr cs \<Longrightarrow> c \<in> set cs \<Longrightarrow> clean c"
  by (cases n rule: getChildren.cases)
     (auto simp: clean_def ident_def opt_child_def derefNode_def ptrNode_def newNode_def
                 at_offset_def no_bracket_fmt
           split: option.splits sum.splits if_splits)

lemma declared_Cons:
  "declared (x # xs) = (case parse_decl x of None \<Rightarrow> declared xs | Some y \<Rightarrow> y # declared xs)"
  by (cases "parse_decl x") (simp_all add: declared_def)

lemma declared_Nil: "declared [] = []"
  by (simp add: declared_def)

lemma declared_append: "declared (xs @ ys) = declared xs @ declared ys"
  by (induction xs) (simp_all add: declared_Nil declared_Cons split: option.splits)

lemma node_ok_served: "node_ok n \<Longrightarrow> \<exists>i l cs. getID n = Inr i \<and> getLabel n = Inr l \<and> getChildren n = Inr cs"
proof -
  assume "node_ok n"
  then have f: "fault n = None" by (simp add: node_ok_fault)
  then obtain i where i: "getID n = Inr i"
    by (cases "getID n") (simp_all add: fault_def)
  then obtain cs where "getChildren n = Inr cs"
    using f by (cases "getChildren n") (simp_all add: fault_def)
  then show ?thesis using i getLabel_defined [OF i] by blast
qed

lemma well_formed_unfold:
  "well_formed n \<longleftrightarrow>
     node_ok n \<and> (\<forall>cs. getChildren n = Inr cs \<longrightarrow> list_all node_ok (concat (map subnodes cs)))"
proof (cases "getChildren n")
  case (Inl a)
  then show ?thesis unfolding well_formed_def by (subst subnodes.simps) simp
next
  case (Inr cs)
  then show ?thesis unfolding well_formed_def by (subst subnodes.simps) simp
qed

lemma doc_declared:
  "well_formed n \<Longrightarrow> clean n \<Longrightarrow> map fst (declared (fst (doc n))) = map ident (subnodes n)"
  "\<exists>p. getID n = Inr p \<Longrightarrow> clean n \<Longrightarrow> list_all node_ok (concat (map subnodes cs))
   \<Longrightarrow> \<forall>c\<in>set cs. clean c
   \<Longrightarrow> map fst (declared (fst (doc_loop n cs))) = map ident (concat (map subnodes cs))"
proof (induction n and n cs rule: doc_doc_loop.induct)
  case (1 n)
  have ok: "node_ok n" using "1.prems"(1) by (simp add: well_formed_unfold)
  then obtain i l cs where i: "getID n = Inr i" and l: "getLabel n = Inr l"
    and cs: "getChildren n = Inr cs"
    using node_ok_served by blast
  have rest: "list_all node_ok (concat (map subnodes cs))"
    using "1.prems"(1) cs by (simp add: well_formed_unfold)
  have ci: "CHR ''['' \<notin> set i"
    using "1.prems"(2) i by (simp add: clean_def ident_def)
  have kids: "\<forall>c\<in>set cs. clean c"
    using getChildren_clean [OF cs] by blast
  have "\<exists>p. getID n = Inr p" using i by blast
  then have ih: "map fst (declared (fst (doc_loop n cs))) = map ident (concat (map subnodes cs))"
    using "1.IH" [OF i l cs] "1.prems"(2) rest kids by blast
  have d: "fst (doc n) = node_line i l # fst (doc_loop n cs)"
    using i l cs by (subst doc.simps) simp
  have s: "subnodes n = n # concat (map subnodes cs)"
    using cs by (subst subnodes.simps) simp
  show ?case
    using ih i by (simp add: d s declared_Cons parse_decl_node_line [OF ci] ident_def)
next
  case (2 n)
  show ?case by (simp add: declared_Nil)
next
  case (3 n c cs)
  from "3.prems"(1) obtain p where p: "getID n = Inr p" by blast
  have pc: "CHR ''['' \<notin> set p"
    using "3.prems"(2) p by (simp add: clean_def ident_def)
  have wc: "well_formed c" and rest: "list_all node_ok (concat (map subnodes cs))"
    using "3.prems"(3) by (simp_all add: well_formed_def)
  have cc: "clean c" and kids: "\<forall>k\<in>set cs. clean k"
    using "3.prems"(4) by simp_all
  have "node_ok c" using wc by (simp add: well_formed_unfold)
  then obtain ci where ci: "getID c = Inr ci"
    using node_ok_served by blast
  have cic: "CHR ''['' \<notin> set ci"
    using cc ci by (simp add: clean_def ident_def)
  have fin: "snd (doc c) = Inr ()"
    using wc by (rule well_formed_ending)
  have ih1: "map fst (declared (fst (doc c))) = map ident (subnodes c)"
    using "3.IH"(1) [OF p ci wc cc] .
  have ih2: "map fst (declared (fst (doc_loop n cs))) = map ident (concat (map subnodes cs))"
    using "3.IH" p ci fin "3.prems"(1,2) rest kids by blast
  have d: "fst (doc_loop n (c # cs)) = edge_line p ci # fst (doc c) @ fst (doc_loop n cs)"
    using p ci fin by simp
  have "map fst (declared (edge_line p ci # fst (doc c) @ fst (doc_loop n cs)))
        = map ident (concat (map subnodes (c # cs)))"
    using ih1 ih2
    by (simp add: declared_Cons declared_append parse_decl_edge_line [OF pc cic])
  then show ?case
    by (simp only: d)
qed


section \<open>No identifier is declared twice\<close>

text \<open>
  The value instances that the synthetic children of a node are built from: the name
  that prefixes the identifier, and the address that \<open>%p\<close> prints.
\<close>

definition op_instance :: "string ref option \<Rightarrow> (string \<times> nat) list" where
  "op_instance p = (case p of None \<Rightarrow> [] | Some r \<Rightarrow> [(''Op'', addr r)])"

fun pointees :: "dyn \<Rightarrow> (string \<times> nat) list" where
  "pointees (DExpression (Some n)) = op_instance (Expression_Op n)"
| "pointees (DArrayComparison (Some n)) = op_instance (ArrayComparison_Op n)"
| "pointees (DScalarComparison (Some n)) = op_instance (ScalarComparison_Op n)"
| "pointees (DBitOperation (Some n)) = op_instance (BitOperation_Op n)"
| "pointees (DUnary (Some n)) = op_instance (Unary_Op n)"
| "pointees (DArray (Some n)) = [(''Array'', addr n)]"
| "pointees (DPrimary (Some n)) =
     (case Primary_Ident n of
        Some r \<Rightarrow> [(''Ident'', addr r)]
      | None \<Rightarrow>
     (case Primary_Number n of
        Some r \<Rightarrow> [(''Number'', addr r)]
      | None \<Rightarrow>
     (case Primary_String n of
        Some r \<Rightarrow> [(''String'', addr r)]
      | None \<Rightarrow> [])))"
| "pointees n = []"

definition key_id :: "string \<times> int \<Rightarrow> string" where
  "key_id k = fst k @ fmt_d (snd k)"

definition instance_id :: "string \<times> nat \<Rightarrow> string" where
  "instance_id k = fst k @ fmt_p (snd k)"

definition owned :: "dyn \<Rightarrow> string list" where
  "owned n = map key_id (case kind_offset n of None \<Rightarrow> [] | Some k \<Rightarrow> [k])
             @ map instance_id (pointees n)"

fun synthetic :: "dyn \<Rightarrow> bool" where
  "synthetic (DNode n) = True"
| "synthetic n = False"

lemma owned_children:
  "node_ok n \<Longrightarrow> \<not> synthetic n \<Longrightarrow> getChildren n = Inr cs
   \<Longrightarrow> ident n # map ident (filter synthetic cs) = owned n"
  by (cases n rule: getChildren.cases)
     (auto simp: owned_def ident_def key_id_def instance_id_def op_instance_def at_offset_def
                 opt_child_def derefNode_def ptrNode_def newNode_def
           split: option.splits sum.splits if_splits)

lemma subnodes_synthetic: "synthetic n \<Longrightarrow> subnodes n = [n]"
  by (cases n rule: synthetic.cases) (simp_all add: subnodes.simps)

lemma owned_synthetic: "synthetic n \<Longrightarrow> owned n = []"
  by (cases n rule: synthetic.cases) (simp_all add: owned_def)

lemma idents_of_lists:
  assumes "\<forall>c\<in>set cs. mset (map ident (subnodes c))
             = mset (if synthetic c then [ident c] else []) + mset (concat (map owned (subnodes c)))"
  shows "mset (map ident (concat (map subnodes cs)))
         = mset (map ident (filter synthetic cs)) + mset (concat (map owned (concat (map subnodes cs))))"
  using assms by (induction cs) simp_all

lemma idents_owned:
  "well_formed n \<Longrightarrow>
   mset (map ident (subnodes n))
     = mset (if synthetic n then [ident n] else []) + mset (concat (map owned (subnodes n)))"
proof (induction n rule: subnodes.induct)
  case (1 n)
  show ?case
  proof (cases "synthetic n")
    case True
    then show ?thesis by (simp add: subnodes_synthetic owned_synthetic)
  next
    case False
    have ok: "node_ok n" using "1.prems" by (simp add: well_formed_unfold)
    then obtain cs where cs: "getChildren n = Inr cs"
      using node_ok_served by blast
    have all: "list_all node_ok (concat (map subnodes cs))"
      using "1.prems" cs by (simp add: well_formed_unfold)
    have "\<forall>c\<in>set cs. well_formed c"
      using all by (auto simp: well_formed_def list_all_iff)
    then have "\<forall>c\<in>set cs. mset (map ident (subnodes c))
             = mset (if synthetic c then [ident c] else []) + mset (concat (map owned (subnodes c)))"
      using "1.IH" [OF cs] by blast
    then have kids: "mset (map ident (concat (map subnodes cs)))
         = mset (map ident (filter synthetic cs)) + mset (concat (map owned (concat (map subnodes cs))))"
      by (rule idents_of_lists)
    have s: "subnodes n = n # concat (map subnodes cs)"
      using cs by (subst subnodes.simps) simp
    have "mset (owned n) = mset (ident n # map ident (filter synthetic cs))"
      using owned_children [OF ok False cs] by simp
    then show ?thesis
      using kids False by (simp add: s)
  qed
qed

lemma owned_split:
  "mset (concat (map owned ns))
   = mset (map key_id (List.map_filter kind_offset ns)
           @ map instance_id (concat (map pointees ns)))"
  by (induction ns) (simp_all add: owned_def map_filter_simps split: option.splits)

lemma kind_offset_name: "kind_offset n = Some k \<Longrightarrow> \<forall>c\<in>set (fst k). \<not> lead c"
  by (cases n rule: kind_offset.cases) (auto simp: lead_def)

lemma pointees_name: "k \<in> set (pointees n) \<Longrightarrow> \<forall>c\<in>set (fst k). \<not> lead c"
  by (cases n rule: pointees.cases) (auto simp: lead_def op_instance_def split: option.splits)

lemma key_id_inj:
  assumes "\<forall>c\<in>set (fst k). \<not> lead c" "\<forall>c\<in>set (fst k'). \<not> lead c" "key_id k = key_id k'"
  shows "k = k'"
proof -
  obtain c s where t: "fmt_d (snd k) = c # s" "lead c" using fmt_d_lead by blast
  obtain c' s' where t': "fmt_d (snd k') = c' # s'" "lead c'" using fmt_d_lead by blast
  have "fst k = fst k' \<and> fmt_d (snd k) = fmt_d (snd k')"
    using name_tail_unique [OF assms(1,2) t t'] assms(3) by (simp add: key_id_def)
  then show ?thesis using fmt_d_inj by (simp add: prod_eq_iff)
qed

lemma instance_id_inj:
  assumes "\<forall>c\<in>set (fst k). \<not> lead c" "\<forall>c\<in>set (fst k'). \<not> lead c"
    "instance_id k = instance_id k'"
  shows "k = k'"
proof -
  obtain c s where t: "fmt_p (snd k) = c # s" "lead c" using fmt_p_lead by blast
  obtain c' s' where t': "fmt_p (snd k') = c' # s'" "lead c'" using fmt_p_lead by blast
  have "fst k = fst k' \<and> fmt_p (snd k) = fmt_p (snd k')"
    using name_tail_unique [OF assms(1,2) t t'] assms(3) by (simp add: instance_id_def)
  then show ?thesis using fmt_p_inj by (simp add: prod_eq_iff)
qed

lemma key_id_not_instance_id:
  assumes "\<forall>c\<in>set (fst k). \<not> lead c" "\<forall>c\<in>set (fst k'). \<not> lead c"
  shows "key_id k \<noteq> instance_id k'"
proof
  assume e: "key_id k = instance_id k'"
  obtain c s where t: "fmt_d (snd k) = c # s" "lead c" using fmt_d_lead by blast
  obtain c' s' where t': "fmt_p (snd k') = c' # s'" "lead c'" using fmt_p_lead by blast
  have "fmt_d (snd k) = fmt_p (snd k')"
    using name_tail_unique [OF assms(1,2) t t'] e by (simp add: key_id_def instance_id_def)
  then show False using fmt_d_not_fmt_p by blast
qed

lemma map_filter_member:
  "k \<in> set (List.map_filter f xs) \<Longrightarrow> \<exists>x\<in>set xs. f x = Some k"
  by (induction xs) (auto simp: map_filter_simps split: option.splits)

lemma idents_distinct:
  assumes "well_formed n" and "\<not> synthetic n"
    and "distinct (List.map_filter kind_offset (subnodes n))"
    and "distinct (concat (map pointees (subnodes n)))"
  shows "distinct (map ident (subnodes n))"
proof -
  let ?K = "List.map_filter kind_offset (subnodes n)"
  let ?I = "concat (map pointees (subnodes n))"
  have K: "\<forall>k\<in>set ?K. \<forall>c\<in>set (fst k). \<not> lead c"
    using kind_offset_name map_filter_member [of _ kind_offset "subnodes n"] by blast
  have I: "\<forall>k\<in>set ?I. \<forall>c\<in>set (fst k). \<not> lead c"
    using pointees_name by auto
  have "inj_on key_id (set ?K)"
    using K key_id_inj by (intro inj_onI) blast
  then have dk: "distinct (map key_id ?K)"
    using assms(3) by (simp add: distinct_map)
  have "inj_on instance_id (set ?I)"
    using I instance_id_inj by (intro inj_onI) blast
  then have di: "distinct (map instance_id ?I)"
    using assms(4) by (simp add: distinct_map)
  have "set (map key_id ?K) \<inter> set (map instance_id ?I) = {}"
    using K I key_id_not_instance_id by fastforce
  then have "distinct (map key_id ?K @ map instance_id ?I)"
    using dk di by simp
  moreover have "mset (map ident (subnodes n)) = mset (map key_id ?K @ map instance_id ?I)"
    using idents_owned [OF assms(1)] assms(2) owned_split [of "subnodes n"] by simp
  ultimately show ?thesis
    using mset_eq_imp_distinct_iff by blast
qed


lemma root_clean: "clean (DBooleanExpression b)"
  by (cases b) (simp_all add: clean_def ident_def at_offset_def no_bracket_fmt)

text \<open>
  C8 (as the code has it). For every well-formed AST in which the (variant-kind, offset)
  pairs of the nodes that child enumeration reaches are unique, and in which no value
  instance (operator, identifier, literal, array) is the source of two synthetic nodes,
  a run on an accepting sink declares each reachable node exactly once, in traversal
  order, and no identifier appears in two node declarations. Two synthetic nodes built
  from operator instances at different addresses receive different identifiers, whatever
  their textual symbols.
\<close>

theorem every_node_declared_once:
  assumes "accepting d"
    and "well_formed_rule (Some r)"
    and "distinct (List.map_filter kind_offset
                    (subnodes (DBooleanExpression (Rule_BooleanExpression r))))"
    and "distinct (concat (map pointees
                    (subnodes (DBooleanExpression (Rule_BooleanExpression r)))))"
  shows "(\<exists>ls. out_of (MarshalRule d (Some r))
                 = written (w d) @ [''digraph {\<newline>''] @ ls @ [''}\<newline>'']
              \<and> map fst (declared ls)
                 = map ident (subnodes (DBooleanExpression (Rule_BooleanExpression r)))
              \<and> distinct (map fst (declared ls)))
         \<and> (addr o1 \<noteq> addr o2 \<longrightarrow>
              getID (ptrNode ''Op'' (\<lambda>x. x) o1) \<noteq> getID (ptrNode ''Op'' (\<lambda>x. x) o2))"
proof -
  let ?root = "DBooleanExpression (Rule_BooleanExpression r)"
  have wf: "well_formed ?root"
    using assms(2) by (simp add: well_formed_rule_def)
  have out: "out_of (MarshalRule d (Some r))
             = written (w d) @ [''digraph {\<newline>''] @ fst (doc ?root) @ [''}\<newline>'']"
    using assms(1) well_formed_ending [OF wf] by (simp add: MarshalRule_accepting out_of_def)
  have ids: "map fst (declared (fst (doc ?root))) = map ident (subnodes ?root)"
    using wf root_clean by (rule doc_declared(1))
  have "distinct (map ident (subnodes ?root))"
    using wf _ assms(3,4) by (rule idents_distinct) simp
  then have "distinct (map fst (declared (fst (doc ?root))))"
    using ids by simp
  then have first: "\<exists>ls. out_of (MarshalRule d (Some r))
                 = written (w d) @ [''digraph {\<newline>''] @ ls @ [''}\<newline>'']
              \<and> map fst (declared ls) = map ident (subnodes ?root)
              \<and> distinct (map fst (declared ls))"
    using out ids by blast
  have "addr o1 \<noteq> addr o2 \<Longrightarrow>
        getID (ptrNode ''Op'' (\<lambda>x. x) o1) \<noteq> getID (ptrNode ''Op'' (\<lambda>x. x) o2)"
    using fmt_p_inj [of "addr o1" "addr o2"] by (auto simp: ptrNode_def newNode_def)
  then show ?thesis using first by blast
qed

text \<open>Two minus signs before \<open>a\<close>, both stored in the same string.\<close>

definition shared_minus :: rule where
  "shared_minus =
     \<lparr>Rule_Pos = 0,
      Rule_BooleanExpression = Some
       \<lparr>BooleanExpression_Pos = 0,
        BooleanExpression_Expression = Some
         (Expression 0
           (Some (Comparison 0
             (Some (BitOperation 0
               (Some (Unary 0 (Some (Ref 4112 ''-''))
                 (Some (Unary 1 (Some (Ref 4112 ''-'')) None
                   (Some (Primary 2 (Some (Ref 4096 ''a'')) None None None))))
                 None))
               None None))
             None None))
           None None)\<rparr>\<rparr>"

lemma shared_minus_run:
  "out_of (MarshalRule fresh (Some shared_minus)) =
        [''digraph {\<newline>'',
         node_line ''BooleanExpression0'' ''BooleanExpression'',
         edge_line ''BooleanExpression0'' ''Expression0'',
         node_line ''Expression0'' ''Expression'',
         edge_line ''Expression0'' ''Comparison0'',
         node_line ''Comparison0'' ''Comparison'',
         edge_line ''Comparison0'' ''BitOperation0'',
         node_line ''BitOperation0'' ''BitOperation'',
         edge_line ''BitOperation0'' ''Unary0'',
         node_line ''Unary0'' ''Unary'',
         edge_line ''Unary0'' ''Op0x1010'',
         node_line ''Op0x1010'' (''Op'' @ esc_n @ ''-''),
         edge_line ''Unary0'' ''Unary1'',
         node_line ''Unary1'' ''Unary'',
         edge_line ''Unary1'' ''Op0x1010'',
         node_line ''Op0x1010'' (''Op'' @ esc_n @ ''-''),
         edge_line ''Unary1'' ''Primary2'',
         node_line ''Primary2'' ''Primary'',
         edge_line ''Primary2'' ''Ident0x1000'',
         node_line ''Ident0x1000'' (''Ident'' @ esc_n @ ''a''),
         ''}\<newline>'']"
  by (simp add: run_eval shared_minus_def fmt_eval node_line_def edge_line_def)

lemma shared_minus_declared:
  "map fst (declared (out_of (MarshalRule fresh (Some shared_minus)))) =
     [''BooleanExpression0'', ''Expression0'', ''Comparison0'', ''BitOperation0'', ''Unary0'',
      ''Op0x1010'', ''Unary1'', ''Op0x1010'', ''Primary2'', ''Ident0x1000'']"
  by (simp add: shared_minus_run parse_eval)

text \<open>
  C8 as stated fails: in a well-formed AST whose (variant-kind, offset) pairs are unique
  but whose two unary operators are one and the same string instance, the identifier
  \<open>Op0x1010\<close> appears in two node declarations.
\<close>

theorem shared_operator_declared_twice:
  "well_formed_rule (Some shared_minus)
   \<and> distinct (List.map_filter kind_offset
                (subnodes (DBooleanExpression (Rule_BooleanExpression shared_minus))))
   \<and> \<not> distinct (map fst (declared (out_of (MarshalRule fresh (Some shared_minus)))))"
  by (simp add: shared_minus_declared)
     (simp add: well_formed_rule_def well_formed_def shared_minus_def tree_eval map_filter_simps)

text \<open>The rule \<open>a == 1\<close>, and two operator instances \<open>==\<close> at different addresses.\<close>

theorem every_node_declared_once_witness:
  "accepting fresh \<and> well_formed_rule (Some a_eq_1)
   \<and> distinct (List.map_filter kind_offset
                (subnodes (DBooleanExpression (Rule_BooleanExpression a_eq_1))))
   \<and> distinct (concat (map pointees
                (subnodes (DBooleanExpression (Rule_BooleanExpression a_eq_1)))))
   \<and> (\<exists>ls. out_of (MarshalRule fresh (Some a_eq_1))
               = written (w fresh) @ [''digraph {\<newline>''] @ ls @ [''}\<newline>'']
            \<and> map fst (declared ls)
               = map ident (subnodes (DBooleanExpression (Rule_BooleanExpression a_eq_1)))
            \<and> distinct (map fst (declared ls)))
   \<and> addr (Ref 4112 ''=='') \<noteq> addr (Ref 4208 ''=='')
   \<and> getID (ptrNode ''Op'' (\<lambda>x. x) (Ref 4112 ''==''))
       \<noteq> getID (ptrNode ''Op'' (\<lambda>x. x) (Ref 4208 ''==''))"
proof -
  have a: "accepting fresh"
    by (simp add: accepting_def fresh_def NewMarshaler_def)
  have b: "well_formed_rule (Some a_eq_1)"
    by (simp add: well_formed_rule_def well_formed_def a_eq_1_def tree_eval)
  have k: "distinct (List.map_filter kind_offset
                (subnodes (DBooleanExpression (Rule_BooleanExpression a_eq_1))))"
    by (simp add: a_eq_1_def tree_eval map_filter_simps)
  have i: "distinct (concat (map pointees
                (subnodes (DBooleanExpression (Rule_BooleanExpression a_eq_1)))))"
    by (simp add: a_eq_1_def tree_eval op_instance_def)
  have n: "addr (Ref 4112 ''=='') \<noteq> addr (Ref 4208 ''=='')"
    by simp
  show ?thesis
    using a b k i n
      every_node_declared_once [OF a b k i, of "Ref 4112 ''==''" "Ref 4208 ''==''"]
    by blast
qed

end
